theory Spec2Isabelle
  imports Main
begin

section \<open>Go error values\<close>

text \<open>
  An \<open>error\<close> of the Go program is a tree: an opaque error of a collaborator (\<open>New\<close>, as
  \<open>errors.New\<close> builds), an error made by \<open>fmt.Errorf\<close> with one \<open>%w\<close> verb (the text before
  the verb, the wrapped error and the text after it), or the result of \<open>errors.Join\<close>.
  The \<open>nil\<close> error is \<open>None\<close> of \<open>error option\<close>.
\<close>

datatype error = New string | WrapError string error string | JoinError "error list"

text \<open>\<open>strings.Join(msgs, "\n")\<close>, used by the message of a joined error.\<close>

fun join_lines :: "string list \<Rightarrow> string" where
  "join_lines [] = []"
| "join_lines [m] = m"
| "join_lines (m # n # ms) = m @ [CHR 0x0A] @ join_lines (n # ms)"

text \<open>The method \<open>Error()\<close>: the message of an error.\<close>

fun Error :: "error \<Rightarrow> string" where
  "Error (New m) = m"
| "Error (WrapError p e s) = p @ Error e @ s"
| "Error (JoinError es) = join_lines (map Error es)"

text \<open>\<open>fmt.Errorf(p + "%w", err)\<close>: every format string of the orchestration package ends
  with the \<open>%w\<close> verb.\<close>

definition fmt_Errorf :: "string \<Rightarrow> error \<Rightarrow> error" where
  "fmt_Errorf p e = WrapError p e []"

text \<open>\<open>errors.Join\<close>: the \<open>nil\<close> arguments are dropped; the result is \<open>nil\<close> when none is
  left, and otherwise one error that wraps the others in the order given.\<close>

definition errors_Join :: "error option list \<Rightarrow> error option" where
  "errors_Join errs =
     (let es = [e. Some e \<leftarrow> errs] in if es = [] then None else Some (JoinError es))"

text \<open>\<open>errors.Is\<close>, with equality of error values as the comparison: the target is the
  error itself or is reached by unwrapping, through every branch of a joined error.\<close>

fun errors_Is :: "error \<Rightarrow> error \<Rightarrow> bool" where
  "errors_Is (New m) t = (New m = t)"
| "errors_Is (WrapError p e s) t = (WrapError p e s = t \<or> errors_Is e t)"
| "errors_Is (JoinError es) t = (JoinError es = t \<or> (\<exists>e \<in> set es. errors_Is e t))"

section \<open>The phase pipeline\<close>

text \<open>
  \<open>type RunStep func(context.Context, *client.Client) error\<close>. A step is a closure that
  acts on the resource records it captured and on the backend, so it is a function of the
  client handle \<open>'c\<close> and of the world \<open>'w\<close> it acts on, returning its error and the world
  it leaves. The context only carries cancellation, which a step sees as failing client
  calls; it is not a parameter of the model. A step is taken to return.
\<close>

type_synonym ('c, 'w) RunStep = "'c \<Rightarrow> 'w \<Rightarrow> error option \<times> 'w"

record ('c, 'w) DockerOrchestrator =
  pre :: "('c, 'w) RunStep list"
  run :: "('c, 'w) RunStep list"
  pos :: "('c, 'w) RunStep list"
  c :: 'c

text \<open>\<open>NewDockerOrchestrator\<close>: the argument is what \<open>client.NewClientWithOpts\<close> returned.\<close>

definition NewDockerOrchestrator :: "error + 'c \<Rightarrow> error + ('c, 'w) DockerOrchestrator" where
  "NewDockerOrchestrator r =
     (case r of
        Inl err \<Rightarrow> Inl err
      | Inr cl \<Rightarrow> Inr \<lparr>pre = [], run = [], pos = [], c = cl\<rparr>)"

definition WithPreRunStep ::
  "('c, 'w) RunStep list \<Rightarrow> ('c, 'w) DockerOrchestrator \<Rightarrow> ('c, 'w) DockerOrchestrator" where
  "WithPreRunStep steps orch = orch\<lparr>pre := pre orch @ steps\<rparr>"

definition WithRunStep ::
  "('c, 'w) RunStep list \<Rightarrow> ('c, 'w) DockerOrchestrator \<Rightarrow> ('c, 'w) DockerOrchestrator" where
  "WithRunStep steps orch = orch\<lparr>run := run orch @ steps\<rparr>"

definition WithPosRunStep ::
  "('c, 'w) RunStep list \<Rightarrow> ('c, 'w) DockerOrchestrator \<Rightarrow> ('c, 'w) DockerOrchestrator" where
  "WithPosRunStep steps orch = orch\<lparr>pos := pos orch @ steps\<rparr>"

text \<open>The three loops of \<open>Run\<close>. The first returns from \<open>Run\<close> at the first failing step; the
  second remembers the failure in \<open>runErr\<close> and breaks; the third joins the failure with
  \<open>runErr\<close> and breaks.\<close>

fun pre_loop :: "('c, 'w) RunStep list \<Rightarrow> 'c \<Rightarrow> 'w \<Rightarrow> error option \<times> 'w" where
  "pre_loop [] cl w = (None, w)"
| "pre_loop (s # ss) cl w =
     (case s cl w of
        (Some err, w') \<Rightarrow> (Some (fmt_Errorf ''failed running pre run step: '' err), w')
      | (None, w') \<Rightarrow> pre_loop ss cl w')"

fun run_loop :: "('c, 'w) RunStep list \<Rightarrow> 'c \<Rightarrow> 'w \<Rightarrow> error option \<times> 'w" where
  "run_loop [] cl w = (None, w)"
| "run_loop (s # ss) cl w =
     (case s cl w of
        (Some err, w') \<Rightarrow> (Some (fmt_Errorf ''failed running step: '' err), w')
      | (None, w') \<Rightarrow> run_loop ss cl w')"

fun pos_loop ::
  "('c, 'w) RunStep list \<Rightarrow> 'c \<Rightarrow> error option \<Rightarrow> 'w \<Rightarrow> error option \<times> 'w" where
  "pos_loop [] cl runErr w = (runErr, w)"
| "pos_loop (s # ss) cl runErr w =
     (case s cl w of
        (Some err, w') \<Rightarrow>
          (errors_Join [Some (fmt_Errorf ''failed running pos run step: '' err), runErr], w')
      | (None, w') \<Rightarrow> pos_loop ss cl runErr w')"

definition Run :: "('c, 'w) DockerOrchestrator \<Rightarrow> 'w \<Rightarrow> error option \<times> 'w" where
  "Run orch w =
     (case pre_loop (pre orch) (c orch) w of
        (Some err, w1) \<Rightarrow> (Some err, w1)
      | (None, w1) \<Rightarrow>
          (case run_loop (run orch) (c orch) w1 of
             (runErr, w2) \<Rightarrow> pos_loop (pos orch) (c orch) runErr w2))"

subsection \<open>Observing which steps execute\<close>

text \<open>
  To say which steps a run executes, every registered step is replaced by a step that
  does the same and then appends its phase, its position in the phase and the error it
  returned to a log carried beside the world: the side-effect counter of a test.
\<close>

datatype phase = PreRun | RunRun | PosRun

type_synonym event = "phase \<times> nat \<times> error option"

definition logged :: "phase \<Rightarrow> nat \<Rightarrow> ('c, 'w) RunStep \<Rightarrow> ('c, 'w \<times> event list) RunStep" where
  "logged ph i s = (\<lambda>cl (w, l). case s cl w of (r, w') \<Rightarrow> (r, (w', l @ [(ph, i, r)])))"

definition logged_from ::
  "phase \<Rightarrow> nat \<Rightarrow> ('c, 'w) RunStep list \<Rightarrow> ('c, 'w \<times> event list) RunStep list" where
  "logged_from ph n ss = map (\<lambda>(i, s). logged ph i s) (enumerate n ss)"

definition Logged ::
  "('c, 'w) DockerOrchestrator \<Rightarrow> ('c, 'w \<times> event list) DockerOrchestrator" where
  "Logged orch =
     \<lparr>pre = logged_from PreRun 0 (pre orch), run = logged_from RunRun 0 (run orch),
      pos = logged_from PosRun 0 (pos orch), c = c orch\<rparr>"

text \<open>The log of a run from world \<open>w\<close>: the steps executed, in the order of execution.\<close>

definition executed :: "('c, 'w) DockerOrchestrator \<Rightarrow> 'w \<Rightarrow> event list" where
  "executed orch w = snd (snd (Run (Logged orch) (w, [])))"

text \<open>The events of a phase in which steps \<open>0..<k\<close> returned \<open>nil\<close>.\<close>

definition passed :: "phase \<Rightarrow> nat \<Rightarrow> event list" where
  "passed ph k = map (\<lambda>i. (ph, i, None)) [0..<k]"

text \<open>Two notions used to state the properties of a phase. \<open>succeed ss cl w\<close> is the world
  left when the steps \<open>ss\<close>, executed in order from \<open>w\<close>, all return \<open>nil\<close>, and \<open>None\<close>
  when one of them fails. \<open>events ph n ss cl w\<close> is what a loop that stops at the first
  failure logs, the first step having position \<open>n\<close>.\<close>

fun succeed :: "('c, 'w) RunStep list \<Rightarrow> 'c \<Rightarrow> 'w \<Rightarrow> 'w option" where
  "succeed [] cl w = Some w"
| "succeed (s # ss) cl w =
     (case s cl w of (Some err, w') \<Rightarrow> None | (None, w') \<Rightarrow> succeed ss cl w')"

fun events :: "phase \<Rightarrow> nat \<Rightarrow> ('c, 'w) RunStep list \<Rightarrow> 'c \<Rightarrow> 'w \<Rightarrow> event list" where
  "events ph n [] cl w = []"
| "events ph n (s # ss) cl w =
     (case s cl w of
        (Some err, w') \<Rightarrow> [(ph, n, Some err)]
      | (None, w') \<Rightarrow> (ph, n, None) # events ph (Suc n) ss cl w')"

text \<open>The format string of each phase, and the error \<open>Run\<close> makes of a logged failure.\<close>

fun phase_format :: "phase \<Rightarrow> string" where
  "phase_format PreRun = ''failed running pre run step: ''"
| "phase_format RunRun = ''failed running step: ''"
| "phase_format PosRun = ''failed running pos run step: ''"

definition failures :: "event list \<Rightarrow> error list" where
  "failures evs = [fmt_Errorf (phase_format ph) e. (ph, i, Some e) \<leftarrow> evs]"

text \<open>The errors an error value combines: those a joined error wraps, the error itself
  otherwise, none for \<open>nil\<close>.\<close>

fun components :: "error option \<Rightarrow> error list" where
  "components None = []"
| "components (Some (JoinError es)) = es"
| "components (Some e) = [e]"

subsection \<open>Pipelines of counting steps\<close>

text \<open>
  Steps over a world that is a counter of the steps executed: \<open>tick\<close> returns \<open>nil\<close>,
  \<open>fail_with m\<close> returns the error \<open>m\<close>. The three pipelines fail in the Post phase, in
  the Pre phase, and in both the Run and the Post phase.
\<close>

definition tick :: "(unit, nat) RunStep" where
  "tick cl n = (None, Suc n)"

definition fail_with :: "string \<Rightarrow> (unit, nat) RunStep" where
  "fail_with m cl n = (Some (New m), Suc n)"

definition post_fails :: "(unit, nat) DockerOrchestrator" where
  "post_fails = \<lparr>pre = [tick], run = [tick], pos = [fail_with ''stop'', tick], c = ()\<rparr>"

definition pre_fails :: "(unit, nat) DockerOrchestrator" where
  "pre_fails =
     \<lparr>pre = [tick, fail_with ''build'', tick], run = [tick], pos = [tick], c = ()\<rparr>"

definition run_fails :: "(unit, nat) DockerOrchestrator" where
  "run_fails =
     \<lparr>pre = [tick], run = [tick, fail_with ''create'', tick],
      pos = [tick, fail_with ''stop'', tick], c = ()\<rparr>"

section \<open>Resources, the backend and the world of the Docker steps\<close>

text \<open>
  The steps capture pointers to the records of the caller and write to them, so the
  records live in a store and a step is given the addresses. A sink (an
  \<open>io.WriteCloser\<close>) and a stream or build context (an \<open>io.Reader\<close>) is a handle, \<open>None\<close>
  being the \<open>nil\<close> interface. \<open>container.Config\<close> and \<open>network.NetworkingConfig\<close> are
  types of the Docker SDK: type parameters here. Every address is taken to hold a record:
  a \<open>nil\<close> pointer among the specs is not modelled.
\<close>

type_synonym ptr = nat

record ('cfg, 'net) Container =
  Name :: string
  Config :: 'cfg
  Network :: 'net
  LogSink :: "nat option"
  StatSink :: "nat option"
  ID :: string

record Network =
  Name :: string
  ID :: string

record Image =
  Tag :: string
  Rebuild :: bool
  BuildCtx :: nat

text \<open>What the backend lists: of \<open>network.Summary\<close> and \<open>image.Summary\<close>, the fields read.\<close>

record network_Summary =
  Name :: string
  ID :: string

record image_Summary =
  RepoTags :: "string list"

text \<open>The body of an image build response (an \<open>io.ReadCloser\<close>), given by what
  \<open>io.ReadAll\<close>, \<open>io.Copy(io.Discard, _)\<close> and \<open>Close\<close> return on it. A response of the
  SDK whose body is \<open>nil\<close> is not modelled.\<close>

record body =
  ReadAll :: "string \<times> error option"
  Discard :: "error option"
  CloseBody :: "error option"

text \<open>
  The calls a step makes on the client. The backend is any function from the calls made
  so far and the call made now to a response: the world keeps the calls, and the client
  is the record of the response functions.
\<close>

datatype ('cfg, 'net) call =
    ContainerCreateCall 'cfg 'net string
  | ContainerStartCall string
  | ContainerLogsCall string
  | ContainerStatsCall string
  | ContainerStopCall string
  | ContainerRemoveCall string
  | NetworkListCall
  | NetworkCreateCall string
  | ImageListCall
  | ImageBuildCall nat string

record ('cfg, 'net) client =
  ContainerCreate :: "('cfg, 'net) call list \<Rightarrow> 'cfg \<Rightarrow> 'net \<Rightarrow> string \<Rightarrow> error + string"
  ContainerStart :: "('cfg, 'net) call list \<Rightarrow> string \<Rightarrow> error option"
  ContainerLogs :: "('cfg, 'net) call list \<Rightarrow> string \<Rightarrow> error + nat"
  ContainerStats :: "('cfg, 'net) call list \<Rightarrow> string \<Rightarrow> error + nat"
  ContainerStop :: "('cfg, 'net) call list \<Rightarrow> string \<Rightarrow> error option"
  ContainerRemove :: "('cfg, 'net) call list \<Rightarrow> string \<Rightarrow> error option"
  NetworkList :: "('cfg, 'net) call list \<Rightarrow> error + network_Summary list"
  NetworkCreate :: "('cfg, 'net) call list \<Rightarrow> string \<Rightarrow> error + string"
  ImageList :: "('cfg, 'net) call list \<Rightarrow> error + image_Summary list"
  ImageBuild :: "('cfg, 'net) call list \<Rightarrow> nat \<Rightarrow> string \<Rightarrow> body \<times> error option"

text \<open>A goroutine started by a streaming step: the diagnostic sink, the container it was
  given and the stream it copies. A \<open>Close\<close> call is logged with the handle closed.\<close>

datatype worker = LogWorker nat ptr nat | StatWorker nat ptr nat

datatype handle = Stream nat | Sink nat

record ('cfg, 'net) world =
  containers :: "ptr \<Rightarrow> ('cfg, 'net) Container"
  networks :: "ptr \<Rightarrow> Network"
  images :: "ptr \<Rightarrow> Image"
  calls :: "('cfg, 'net) call list"
  forked :: "worker list"
  closes :: "handle list"
  diag :: "(nat \<times> error) list"

type_synonym ('cfg, 'net) DockerStep = "(('cfg, 'net) client, ('cfg, 'net) world) RunStep"

definition called :: "('cfg, 'net) call \<Rightarrow> ('cfg, 'net) world \<Rightarrow> ('cfg, 'net) world" where
  "called k w = w\<lparr>calls := calls w @ [k]\<rparr>"

section \<open>The provisioning steps\<close>

text \<open>Each step is the loop of its closure over the specs it was built with. The steps
  \<open>GoBuildStep\<close> and \<open>ContainerWaitStep\<close> are not part of this development.\<close>

fun ContainerCreateStep :: "ptr list \<Rightarrow> ('cfg, 'net) DockerStep" where
  "ContainerCreateStep [] cl w = (None, w)"
| "ContainerCreateStep (s # specs) cl w =
     (let cnt = containers w s;
          w' = called (ContainerCreateCall (Config cnt) (Network cnt) (Container.Name cnt)) w
      in case ContainerCreate cl (calls w) (Config cnt) (Network cnt) (Container.Name cnt) of
           Inl err \<Rightarrow>
             (Some (fmt_Errorf (''failed to create '' @ Container.Name cnt @ '' container: '') err),
              w')
         | Inr rid \<Rightarrow>
             ContainerCreateStep specs cl
               (w'\<lparr>containers := (containers w')(s := cnt\<lparr>Container.ID := rid\<rparr>)\<rparr>))"

fun ContainerStartStep :: "ptr list \<Rightarrow> ('cfg, 'net) DockerStep" where
  "ContainerStartStep [] cl w = (None, w)"
| "ContainerStartStep (s # specs) cl w =
     (let cnt = containers w s;
          w' = called (ContainerStartCall (Container.ID cnt)) w
      in case ContainerStart cl (calls w) (Container.ID cnt) of
           Some err \<Rightarrow>
             (Some (fmt_Errorf (''failed to start '' @ Container.Name cnt @ '' container: '') err),
              w')
         | None \<Rightarrow> ContainerStartStep specs cl w')"

fun ContainerStopStep :: "ptr list \<Rightarrow> ('cfg, 'net) DockerStep" where
  "ContainerStopStep [] cl w = (None, w)"
| "ContainerStopStep (s # specs) cl w =
     (let cnt = containers w s;
          w' = called (ContainerStopCall (Container.ID cnt)) w
      in case ContainerStop cl (calls w) (Container.ID cnt) of
           Some err \<Rightarrow>
             (Some (fmt_Errorf (''failed to stop '' @ Container.Name cnt @ '' container: '') err),
              w')
         | None \<Rightarrow> ContainerStopStep specs cl w')"

fun ContainerRemoveStep :: "ptr list \<Rightarrow> ('cfg, 'net) DockerStep" where
  "ContainerRemoveStep [] cl w = (None, w)"
| "ContainerRemoveStep (s # specs) cl w =
     (let cnt = containers w s;
          w' = called (ContainerRemoveCall (Container.ID cnt)) w
      in case ContainerRemove cl (calls w) (Container.ID cnt) of
           Some err \<Rightarrow>
             (Some (fmt_Errorf (''failed to remove '' @ Container.Name cnt @ '' container: '') err),
              w')
         | None \<Rightarrow> ContainerRemoveStep specs cl w')"

section \<open>The streaming steps and the sinks\<close>

text \<open>A \<open>go\<close> statement appends the goroutine to \<open>forked\<close>; the step does not wait for it.\<close>

fun ContainerLogStep :: "nat \<Rightarrow> ptr list \<Rightarrow> ('cfg, 'net) DockerStep" where
  "ContainerLogStep errLogSink [] cl w = (None, w)"
| "ContainerLogStep errLogSink (s # specs) cl w =
     (let cnt = containers w s in
      if LogSink cnt = None then ContainerLogStep errLogSink specs cl w
      else
        let w' = called (ContainerLogsCall (Container.ID cnt)) w
        in case ContainerLogs cl (calls w) (Container.ID cnt) of
             Inl err \<Rightarrow>
               (Some (fmt_Errorf
                        (''failed to get logs for '' @ Container.Name cnt @ '' container: '') err),
                w')
           | Inr inp \<Rightarrow>
               ContainerLogStep errLogSink specs cl
                 (w'\<lparr>forked := forked w' @ [LogWorker errLogSink s inp]\<rparr>))"

fun ContainerStreamStatStep :: "nat \<Rightarrow> ptr list \<Rightarrow> ('cfg, 'net) DockerStep" where
  "ContainerStreamStatStep errLogSink [] cl w = (None, w)"
| "ContainerStreamStatStep errLogSink (s # specs) cl w =
     (let cnt = containers w s in
      if StatSink cnt = None then ContainerStreamStatStep errLogSink specs cl w
      else
        let w' = called (ContainerStatsCall (Container.ID cnt)) w
        in case ContainerStats cl (calls w) (Container.ID cnt) of
             Inl err \<Rightarrow>
               (Some (fmt_Errorf
                        (''failed to get '' @ Container.Name cnt @ '' container stats: '') err),
                w')
           | Inr r \<Rightarrow>
               ContainerStreamStatStep errLogSink specs cl
                 (w'\<lparr>forked := forked w' @ [StatWorker errLogSink s r]\<rparr>))"

text \<open>
  What the streams and sinks answer: the error of \<open>stdcopy.StdCopy(dst, errdst, src)\<close>
  and of \<open>io.Copy(dst, src)\<close> once the stream has ended, and the error of a \<open>Close\<close>
  given the \<open>Close\<close> calls made before it (a second \<open>Close\<close> of a file fails).
\<close>

record streams =
  StdCopy :: "nat \<Rightarrow> nat \<Rightarrow> nat \<Rightarrow> error option"
  Copy :: "nat \<Rightarrow> nat \<Rightarrow> error option"
  Close :: "handle list \<Rightarrow> handle \<Rightarrow> error option"

text \<open>
  The body of a goroutine, from the end of its stream on and with no other goroutine in
  between: the copy returns, the stream is closed, then the sink, and the joined error,
  if any, is printed to the diagnostic sink. The sink is read from the record when the
  goroutine runs; \<open>None\<close> is the panic of \<open>Close\<close> on a \<open>nil\<close> sink.
\<close>

fun run_worker :: "streams \<Rightarrow> worker \<Rightarrow> ('cfg, 'net) world \<Rightarrow> ('cfg, 'net) world option" where
  "run_worker io (LogWorker errLogSink cnt inp) w =
     (case LogSink (containers w cnt) of
        None \<Rightarrow> None
      | Some sink \<Rightarrow>
          (let copied = StdCopy io sink errLogSink inp;
               inClosed = Close io (closes w) (Stream inp);
               w1 = w\<lparr>closes := closes w @ [Stream inp]\<rparr>;
               sinkClosed = Close io (closes w1) (Sink sink);
               w2 = w1\<lparr>closes := closes w1 @ [Sink sink]\<rparr>
           in case errors_Join [copied, inClosed, sinkClosed] of
                None \<Rightarrow> Some w2
              | Some err \<Rightarrow>
                  Some (w2\<lparr>diag := diag w2 @
                    [(errLogSink,
                      fmt_Errorf (''failed to copy '' @ Container.Name (containers w cnt)
                                  @ '' container logs or close sinks: '') err)]\<rparr>)))"
| "run_worker io (StatWorker errLogSink cnt r) w =
     (case StatSink (containers w cnt) of
        None \<Rightarrow> None
      | Some sink \<Rightarrow>
          (let copied = Copy io sink r;
               bodyClosed = Close io (closes w) (Stream r);
               w1 = w\<lparr>closes := closes w @ [Stream r]\<rparr>;
               sinkClosed = Close io (closes w1) (Sink sink);
               w2 = w1\<lparr>closes := closes w1 @ [Sink sink]\<rparr>
           in case errors_Join [copied, bodyClosed, sinkClosed] of
                None \<Rightarrow> Some w2
              | Some err \<Rightarrow>
                  Some (w2\<lparr>diag := diag w2 @
                    [(errLogSink,
                      fmt_Errorf (''failed to copy '' @ Container.Name (containers w cnt)
                                  @ '' container stats or close sinks: '') err)]\<rparr>)))"

text \<open>\<open>EnsureContainerSinkCloseStep\<close> calls \<open>Close\<close> on every sink that is not \<open>nil\<close> and
  drops what \<open>Close\<close> returns.\<close>

fun EnsureContainerSinkCloseStep :: "ptr list \<Rightarrow> ('cfg, 'net) DockerStep" where
  "EnsureContainerSinkCloseStep [] cl w = (None, w)"
| "EnsureContainerSinkCloseStep (s # specs) cl w =
     (let cnt = containers w s;
          w1 = (case LogSink cnt of
                  None \<Rightarrow> w
                | Some sink \<Rightarrow> w\<lparr>closes := closes w @ [Sink sink]\<rparr>);
          w2 = (case StatSink cnt of
                  None \<Rightarrow> w1
                | Some sink \<Rightarrow> w1\<lparr>closes := closes w1 @ [Sink sink]\<rparr>)
      in EnsureContainerSinkCloseStep specs cl w2)"

section \<open>The ensure steps\<close>

text \<open>The Go maps \<open>map[string]struct{}\<close> are sets of strings.\<close>

definition networkNameSet :: "network_Summary list \<Rightarrow> string set" where
  "networkNameSet nets = fold (\<lambda>n names. insert (network_Summary.Name n) names) nets {}"

definition imageTagSet :: "image_Summary list \<Rightarrow> string set" where
  "imageTagSet imgs = fold (\<lambda>i tags. fold (\<lambda>t tags. insert t tags) (RepoTags i) tags) imgs {}"

fun EnsureNetworkStep_loop :: "string set \<Rightarrow> ptr list \<Rightarrow> ('cfg, 'net) DockerStep" where
  "EnsureNetworkStep_loop names [] cl w = (None, w)"
| "EnsureNetworkStep_loop names (s # specs) cl w =
     (let net = networks w s in
      if Network.Name net \<in> names then EnsureNetworkStep_loop names specs cl w
      else
        let w' = called (NetworkCreateCall (Network.Name net)) w
        in case NetworkCreate cl (calls w) (Network.Name net) of
             Inl err \<Rightarrow>
               (Some (fmt_Errorf (''failed to create '' @ Network.Name net @ '' network: '') err),
                w')
           | Inr rid \<Rightarrow>
               EnsureNetworkStep_loop names specs cl
                 (w'\<lparr>networks := (networks w')(s := net\<lparr>Network.ID := rid\<rparr>)\<rparr>))"

definition EnsureNetworkStep :: "ptr list \<Rightarrow> ('cfg, 'net) DockerStep" where
  "EnsureNetworkStep specs cl w =
     (if length specs < 1 then (None, w)
      else
        let w' = called NetworkListCall w
        in case NetworkList cl (calls w) of
             Inl err \<Rightarrow> (Some (fmt_Errorf ''failed listing networks: '' err), w')
           | Inr nets \<Rightarrow> EnsureNetworkStep_loop (networkNameSet nets) specs cl w')"

text \<open>\<open>osutil.DrainCloseErr\<close>. The format \<open>"error '%w' with content:\n%s"\<close> has text on
  both sides of the wrapped error.\<close>

definition DrainCloseErr :: "body \<Rightarrow> error option \<Rightarrow> error option" where
  "DrainCloseErr rc inErr =
     (let errs =
            (case inErr of
               None \<Rightarrow> None
             | Some e \<Rightarrow>
                 (case ReadAll rc of
                    (d, err) \<Rightarrow>
                      errors_Join
                        [Some (WrapError (''error '' @ [CHR 0x27]) e
                                 ([CHR 0x27] @ '' with content:'' @ [CHR 0x0A] @ d)),
                         err]));
          err = Discard rc
      in errors_Join [errs, err, CloseBody rc])"

fun EnsureImageStep_loop :: "string set \<Rightarrow> ptr list \<Rightarrow> ('cfg, 'net) DockerStep" where
  "EnsureImageStep_loop tags [] cl w = (None, w)"
| "EnsureImageStep_loop tags (s # specs) cl w =
     (let img = images w s in
      if Tag img \<notin> tags \<or> Rebuild img then
        let w' = called (ImageBuildCall (BuildCtx img) (Tag img)) w
        in case ImageBuild cl (calls w) (BuildCtx img) (Tag img) of
             (resp, err) \<Rightarrow>
               (case DrainCloseErr resp err of
                  Some err \<Rightarrow>
                    (Some (fmt_Errorf (''failed building image '' @ Tag img @ '': '') err), w')
                | None \<Rightarrow> EnsureImageStep_loop tags specs cl w')
      else EnsureImageStep_loop tags specs cl w)"

definition EnsureImageStep :: "ptr list \<Rightarrow> ('cfg, 'net) DockerStep" where
  "EnsureImageStep specs cl w =
     (if length specs < 1 then (None, w)
      else
        let w' = called ImageListCall w
        in case ImageList cl (calls w) of
             Inl err \<Rightarrow> (Some (fmt_Errorf ''failed listing images: '' err), w')
           | Inr res \<Rightarrow> EnsureImageStep_loop (imageTagSet res) specs cl w')"

section \<open>Notions used to state the properties of the steps\<close>

text \<open>The call each provisioning step makes for the container at address \<open>p\<close>.\<close>

definition create_call :: "('cfg, 'net) world \<Rightarrow> ptr \<Rightarrow> ('cfg, 'net) call" where
  "create_call w p =
     ContainerCreateCall (Config (containers w p)) (Network (containers w p))
       (Container.Name (containers w p))"

definition start_call :: "('cfg, 'net) world \<Rightarrow> ptr \<Rightarrow> ('cfg, 'net) call" where
  "start_call w p = ContainerStartCall (Container.ID (containers w p))"

definition stop_call :: "('cfg, 'net) world \<Rightarrow> ptr \<Rightarrow> ('cfg, 'net) call" where
  "stop_call w p = ContainerStopCall (Container.ID (containers w p))"

definition remove_call :: "('cfg, 'net) world \<Rightarrow> ptr \<Rightarrow> ('cfg, 'net) call" where
  "remove_call w p = ContainerRemoveCall (Container.ID (containers w p))"

text \<open>What \<open>ContainerCreate\<close> answers for the container at \<open>p\<close> after the calls \<open>h\<close>.\<close>

definition create_response ::
  "('cfg, 'net) client \<Rightarrow> ('cfg, 'net) call list \<Rightarrow> ('cfg, 'net) world \<Rightarrow> ptr \<Rightarrow> error + string" where
  "create_response cl h w p =
     ContainerCreate cl h (Config (containers w p)) (Network (containers w p))
       (Container.Name (containers w p))"

section \<open>An in-process fake of the backend and a small resource model\<close>

text \<open>
  The fake refuses every call that names \<open>bad\<close> (a container name on create, the ID made
  of it afterwards, a network name, an image tag) and accepts the rest. It lists the
  networks \<open>nets\<close> and the images \<open>imgs\<close> it starts with, then those created or built by the
  calls before; the ID of a thing is its name behind a prefix; a stream is numbered by
  the call that opened it.
\<close>

definition ok_body :: body where
  "ok_body = \<lparr>ReadAll = ([], None), Discard = None, CloseBody = None\<rparr>"

definition fake :: "string \<Rightarrow> network_Summary list \<Rightarrow> image_Summary list \<Rightarrow> (unit, unit) client" where
  "fake bad nets imgs =
     \<lparr>ContainerCreate =
        (\<lambda>h cfg net name. if name = bad then Inl (New ''no such image'') else Inr (''id-'' @ name)),
      ContainerStart = (\<lambda>h i. if i = ''id-'' @ bad then Some (New ''cannot start'') else None),
      ContainerLogs = (\<lambda>h i. if i = ''id-'' @ bad then Inl (New ''no logs'') else Inr (length h)),
      ContainerStats = (\<lambda>h i. if i = ''id-'' @ bad then Inl (New ''no stats'') else Inr (length h)),
      ContainerStop = (\<lambda>h i. if i = ''id-'' @ bad then Some (New ''cannot stop'') else None),
      ContainerRemove = (\<lambda>h i. if i = ''id-'' @ bad then Some (New ''cannot remove'') else None),
      NetworkList =
        (\<lambda>h. Inr (nets @ [\<lparr>network_Summary.Name = n, ID = ''net-'' @ n\<rparr>. NetworkCreateCall n \<leftarrow> h])),
      NetworkCreate =
        (\<lambda>h n. if n = bad then Inl (New ''address pool exhausted'') else Inr (''net-'' @ n)),
      ImageList = (\<lambda>h. Inr (imgs @ [\<lparr>RepoTags = [t]\<rparr>. ImageBuildCall b t \<leftarrow> h])),
      ImageBuild =
        (\<lambda>h b t. if t = bad then (ok_body, Some (New ''build failed'')) else (ok_body, None))\<rparr>"

text \<open>Three containers at the addresses 0, 1 and 2: a client with both sinks, a server
  with a stat sink only, a probe with no sink. One network and one image at address 0.\<close>

definition blank :: "(unit, unit) Container" where
  "blank = \<lparr>Container.Name = [], Config = (), Network = (), LogSink = None, StatSink = None,
            Container.ID = []\<rparr>"

definition bench :: "(unit, unit) world" where
  "bench =
     \<lparr>containers = (\<lambda>p. blank)
        (0 := blank\<lparr>Container.Name := ''client'', LogSink := Some 10, StatSink := Some 11\<rparr>,
         1 := blank\<lparr>Container.Name := ''server'', StatSink := Some 12\<rparr>,
         2 := blank\<lparr>Container.Name := ''probe''\<rparr>),
      networks = (\<lambda>p. \<lparr>Network.Name = ''bench'', ID = []\<rparr>),
      images = (\<lambda>p. \<lparr>Tag = ''client:latest'', Rebuild = False, BuildCtx = 0\<rparr>),
      calls = [], forked = [], closes = [], diag = []\<rparr>"

text \<open>The container a goroutine was given, and the two tests of the streaming steps.\<close>

fun worker_of :: "worker \<Rightarrow> ptr" where
  "worker_of (LogWorker errLogSink cnt inp) = cnt"
| "worker_of (StatWorker errLogSink cnt r) = cnt"

definition has_log_sink :: "('cfg, 'net) world \<Rightarrow> ptr \<Rightarrow> bool" where
  "has_log_sink w p = (LogSink (containers w p) \<noteq> None)"

definition has_stat_sink :: "('cfg, 'net) world \<Rightarrow> ptr \<Rightarrow> bool" where
  "has_stat_sink w p = (StatSink (containers w p) \<noteq> None)"

text \<open>The pipeline of \<open>cmd/bench\<close> for the containers \<open>specs\<close>. The step \<open>workers_finish\<close>
  stands where \<open>ContainerWaitStep\<close> is registered: while that step waits the containers
  exit, their streams end, and here every goroutine forked so far runs to its end.\<close>

fun finish_all :: "streams \<Rightarrow> worker list \<Rightarrow> ('cfg, 'net) world \<Rightarrow> ('cfg, 'net) world" where
  "finish_all io [] w = w"
| "finish_all io (wk # wks) w =
     (case run_worker io wk w of None \<Rightarrow> w | Some w' \<Rightarrow> finish_all io wks w')"

definition workers_finish :: "streams \<Rightarrow> ('cfg, 'net) DockerStep" where
  "workers_finish io cl w = (None, finish_all io (forked w) w)"

definition bench_pipeline ::
  "streams \<Rightarrow> ('cfg, 'net) client \<Rightarrow> ptr list
     \<Rightarrow> (('cfg, 'net) client, ('cfg, 'net) world) DockerOrchestrator" where
  "bench_pipeline io cl specs =
     WithPosRunStep
       [ContainerStopStep specs, ContainerRemoveStep specs, EnsureContainerSinkCloseStep specs]
       (WithRunStep
          [ContainerCreateStep specs, ContainerStreamStatStep 2 specs, ContainerStartStep specs,
           ContainerLogStep 2 specs, workers_finish io]
          \<lparr>pre = [], run = [], pos = [], c = cl\<rparr>)"

text \<open>Streams and sinks that never fail.\<close>

definition quiet :: streams where
  "quiet = \<lparr>StdCopy = (\<lambda>dst errdst src. None), Copy = (\<lambda>dst src. None), Close = (\<lambda>h x. None)\<rparr>"

text \<open>The \<open>Close\<close> calls \<open>EnsureContainerSinkCloseStep\<close> makes for the container at \<open>p\<close>.\<close>

definition sinks_of :: "('cfg, 'net) world \<Rightarrow> ptr \<Rightarrow> handle list" where
  "sinks_of w p =
     (case LogSink (containers w p) of None \<Rightarrow> [] | Some k \<Rightarrow> [Sink k]) @
     (case StatSink (containers w p) of None \<Rightarrow> [] | Some k \<Rightarrow> [Sink k])"

text \<open>The small resource model once its three containers are created.\<close>

definition created :: "(unit, unit) world" where
  "created = snd (ContainerCreateStep [0, 1, 2] (fake ''none'' [] []) bench)"

section \<open>Properties of the phase pipeline\<close>

subsection \<open>The logged pipeline runs as the pipeline does\<close>

lemma pre_loop_logged:
  "pre_loop (logged_from ph n ss) cl (w, l) =
     (case pre_loop ss cl w of (r, w') \<Rightarrow> (r, (w', l @ events ph n ss cl w)))"
proof (induction ss arbitrary: n w l)
  case Nil
  show ?case by (simp add: logged_from_def)
next
  case (Cons s ss)
  have step: "logged_from ph n (s # ss) = logged ph n s # logged_from ph (Suc n) ss"
    by (simp add: logged_from_def)
  show ?case
    by (cases "s cl w") (auto simp: step logged_def Cons.IH split: option.splits prod.splits)
qed

lemma run_loop_logged:
  "run_loop (logged_from ph n ss) cl (w, l) =
     (case run_loop ss cl w of (r, w') \<Rightarrow> (r, (w', l @ events ph n ss cl w)))"
proof (induction ss arbitrary: n w l)
  case Nil
  show ?case by (simp add: logged_from_def)
next
  case (Cons s ss)
  have step: "logged_from ph n (s # ss) = logged ph n s # logged_from ph (Suc n) ss"
    by (simp add: logged_from_def)
  show ?case
    by (cases "s cl w") (auto simp: step logged_def Cons.IH split: option.splits prod.splits)
qed

lemma pos_loop_logged:
  "pos_loop (logged_from ph n ss) cl rE (w, l) =
     (case pos_loop ss cl rE w of (r, w') \<Rightarrow> (r, (w', l @ events ph n ss cl w)))"
proof (induction ss arbitrary: n w l)
  case Nil
  show ?case by (simp add: logged_from_def)
next
  case (Cons s ss)
  have step: "logged_from ph n (s # ss) = logged ph n s # logged_from ph (Suc n) ss"
    by (simp add: logged_from_def)
  show ?case
    by (cases "s cl w") (auto simp: step logged_def Cons.IH split: option.splits prod.splits)
qed

lemma Run_Logged:
  "Run (Logged orch) (w, l) =
     (case pre_loop (pre orch) (c orch) w of
        (Some err, w1) \<Rightarrow> (Some err, (w1, l @ events PreRun 0 (pre orch) (c orch) w))
      | (None, w1) \<Rightarrow>
          (case run_loop (run orch) (c orch) w1 of
             (runErr, w2) \<Rightarrow>
               (case pos_loop (pos orch) (c orch) runErr w2 of
                  (r, w3) \<Rightarrow>
                    (r, (w3, l @ events PreRun 0 (pre orch) (c orch) w
                               @ events RunRun 0 (run orch) (c orch) w1
                               @ events PosRun 0 (pos orch) (c orch) w2)))))"
  by (simp add: Run_def Logged_def pre_loop_logged run_loop_logged pos_loop_logged
      split: prod.splits option.splits)

lemma Run_Logged_same:
  "fst (Run (Logged orch) (w, l)) = fst (Run orch w) \<and>
   fst (snd (Run (Logged orch) (w, l))) = snd (Run orch w)"
  by (simp add: Run_Logged) (simp add: Run_def split: prod.splits option.splits)

subsection \<open>A phase that passes, a phase with a first failure\<close>

lemma succeed_pre_loop: "succeed ss cl w = Some w' \<Longrightarrow> pre_loop ss cl w = (None, w')"
  by (induction ss arbitrary: w) (auto split: prod.splits option.splits)

lemma succeed_run_loop: "succeed ss cl w = Some w' \<Longrightarrow> run_loop ss cl w = (None, w')"
  by (induction ss arbitrary: w) (auto split: prod.splits option.splits)

lemma succeed_pos_loop: "succeed ss cl w = Some w' \<Longrightarrow> pos_loop ss cl rE w = (rE, w')"
  by (induction ss arbitrary: w) (auto split: prod.splits option.splits)

lemma succeed_events:
  "succeed ss cl w = Some w' \<Longrightarrow>
   events ph n ss cl w = map (\<lambda>i. (ph, n + i, None)) [0..<length ss]"
proof (induction ss arbitrary: w n)
  case Nil
  then show ?case by simp
next
  case (Cons s ss)
  then obtain w1 where s: "s cl w = (None, w1)" and rest: "succeed ss cl w1 = Some w'"
    by (auto split: prod.splits option.splits)
  have "events ph (Suc n) ss cl w1 = map (\<lambda>i. (ph, Suc n + i, None)) [0..<length ss]"
    using Cons.IH[OF rest] .
  then show ?case using s by (simp add: map_upt_Suc del: upt_Suc)
qed

text \<open>A failure at position \<open>k\<close> after \<open>k\<close> successes.\<close>

lemma fails_at_pre_loop:
  "\<lbrakk>k < length ss; succeed (take k ss) cl w = Some wk; (ss ! k) cl wk = (Some e, w')\<rbrakk>
   \<Longrightarrow> pre_loop ss cl w = (Some (fmt_Errorf ''failed running pre run step: '' e), w')"
proof (induction ss arbitrary: w k)
  case Nil
  then show ?case by simp
next
  case (Cons s ss)
  show ?case
  proof (cases k)
    case 0
    with Cons.prems show ?thesis by simp
  next
    case (Suc j)
    with Cons.prems obtain w1 where s: "s cl w = (None, w1)"
      and rest: "succeed (take j ss) cl w1 = Some wk"
      by (auto split: prod.splits option.splits)
    from Cons.prems Suc have "j < length ss" "(ss ! j) cl wk = (Some e, w')" by simp_all
    from Cons.IH[OF this(1) rest this(2)] s show ?thesis by simp
  qed
qed

lemma fails_at_run_loop:
  "\<lbrakk>k < length ss; succeed (take k ss) cl w = Some wk; (ss ! k) cl wk = (Some e, w')\<rbrakk>
   \<Longrightarrow> run_loop ss cl w = (Some (fmt_Errorf ''failed running step: '' e), w')"
proof (induction ss arbitrary: w k)
  case Nil
  then show ?case by simp
next
  case (Cons s ss)
  show ?case
  proof (cases k)
    case 0
    with Cons.prems show ?thesis by simp
  next
    case (Suc j)
    with Cons.prems obtain w1 where s: "s cl w = (None, w1)"
      and rest: "succeed (take j ss) cl w1 = Some wk"
      by (auto split: prod.splits option.splits)
    from Cons.prems Suc have "j < length ss" "(ss ! j) cl wk = (Some e, w')" by simp_all
    from Cons.IH[OF this(1) rest this(2)] s show ?thesis by simp
  qed
qed

lemma fails_at_pos_loop:
  "\<lbrakk>k < length ss; succeed (take k ss) cl w = Some wk; (ss ! k) cl wk = (Some e, w')\<rbrakk>
   \<Longrightarrow> pos_loop ss cl rE w =
       (errors_Join [Some (fmt_Errorf ''failed running pos run step: '' e), rE], w')"
proof (induction ss arbitrary: w k)
  case Nil
  then show ?case by simp
next
  case (Cons s ss)
  show ?case
  proof (cases k)
    case 0
    with Cons.prems show ?thesis by simp
  next
    case (Suc j)
    with Cons.prems obtain w1 where s: "s cl w = (None, w1)"
      and rest: "succeed (take j ss) cl w1 = Some wk"
      by (auto split: prod.splits option.splits)
    from Cons.prems Suc have "j < length ss" "(ss ! j) cl wk = (Some e, w')" by simp_all
    from Cons.IH[OF this(1) rest this(2)] s show ?thesis by simp
  qed
qed

lemma fails_at_events:
  "\<lbrakk>k < length ss; succeed (take k ss) cl w = Some wk; (ss ! k) cl wk = (Some e, w')\<rbrakk>
   \<Longrightarrow> events ph n ss cl w = map (\<lambda>i. (ph, n + i, None)) [0..<k] @ [(ph, n + k, Some e)]"
proof (induction ss arbitrary: w k n)
  case Nil
  then show ?case by simp
next
  case (Cons s ss)
  show ?case
  proof (cases k)
    case 0
    with Cons.prems show ?thesis by simp
  next
    case (Suc j)
    with Cons.prems obtain w1 where s: "s cl w = (None, w1)"
      and rest: "succeed (take j ss) cl w1 = Some wk"
      by (auto split: prod.splits option.splits)
    from Cons.prems Suc have "j < length ss" "(ss ! j) cl wk = (Some e, w')" by simp_all
    from Cons.IH[OF this(1) rest this(2), of "Suc n"] s Suc show ?thesis
      by (simp add: map_upt_Suc del: upt_Suc)
  qed
qed

text \<open>Every phase either passes or has a first failing step.\<close>

lemma succeed_or_fails:
  "(\<exists>w'. succeed ss cl w = Some w') \<or>
   (\<exists>k wk e w'. k < length ss \<and> succeed (take k ss) cl w = Some wk \<and>
                 (ss ! k) cl wk = (Some e, w'))"
proof (induction ss arbitrary: w)
  case Nil
  show ?case by simp
next
  case (Cons s ss)
  obtain r w1 where s: "s cl w = (r, w1)" by (cases "s cl w")
  show ?case
  proof (cases r)
    case (Some e)
    with s have "0 < length (s # ss) \<and> succeed (take 0 (s # ss)) cl w = Some w \<and>
                 ((s # ss) ! 0) cl w = (Some e, w1)" by simp
    then show ?thesis by blast
  next
    case None
    from Cons.IH[of w1] show ?thesis
    proof
      assume "\<exists>w'. succeed ss cl w1 = Some w'"
      with s None show ?thesis by simp
    next
      assume "\<exists>k wk e w'. k < length ss \<and> succeed (take k ss) cl w1 = Some wk \<and>
                 (ss ! k) cl wk = (Some e, w')"
      then obtain k wk e w' where "k < length ss" "succeed (take k ss) cl w1 = Some wk"
        "(ss ! k) cl wk = (Some e, w')" by blast
      with s None have "Suc k < length (s # ss) \<and>
          succeed (take (Suc k) (s # ss)) cl w = Some wk \<and>
          ((s # ss) ! Suc k) cl wk = (Some e, w')" by simp
      then show ?thesis by blast
    qed
  qed
qed

lemma executed_eq:
  "executed orch w =
     (case pre_loop (pre orch) (c orch) w of
        (Some err, w1) \<Rightarrow> events PreRun 0 (pre orch) (c orch) w
      | (None, w1) \<Rightarrow>
          events PreRun 0 (pre orch) (c orch) w
          @ events RunRun 0 (run orch) (c orch) w1
          @ events PosRun 0 (pos orch) (c orch) (snd (run_loop (run orch) (c orch) w1)))"
  by (simp add: executed_def Run_Logged split: prod.splits option.splits)

lemma events_phase: "ev \<in> set (events ph n ss cl w) \<Longrightarrow> fst ev = ph"
  by (induction ss arbitrary: n w) (auto split: prod.splits option.splits)

lemma filter_events:
  "filter (\<lambda>ev. fst ev = ph') (events ph n ss cl w) = (if ph = ph' then events ph n ss cl w else [])"
  by (auto simp: filter_empty_conv filter_id_conv dest: events_phase)

lemma errors_Is_refl: "errors_Is e e"
  by (cases e) simp_all

lemma failures_append: "failures (xs @ ys) = failures xs @ failures ys"
  by (simp add: failures_def)

lemma failures_passed: "failures (passed ph k) = []"
  by (induction k) (simp_all add: failures_def passed_def)

lemma failures_single: "failures [(ph, i, Some e)] = [fmt_Errorf (phase_format ph) e]"
  by (simp add: failures_def)

lemma passed_None: "ev \<in> set (passed ph k) \<Longrightarrow> snd (snd ev) = None"
  by (auto simp: passed_def)

lemma events_passed:
  "succeed ss cl w = Some w' \<Longrightarrow> events ph 0 ss cl w = passed ph (length ss)"
  by (simp add: succeed_events passed_def)

lemma events_failed:
  "\<lbrakk>k < length ss; succeed (take k ss) cl w = Some wk; (ss ! k) cl wk = (Some e, w')\<rbrakk>
   \<Longrightarrow> events ph 0 ss cl w = passed ph k @ [(ph, k, Some e)]"
  using fails_at_events[of k ss cl w wk e w' ph 0] by (simp add: passed_def)

lemma pos_loop_keeps:
  "fst (pos_loop ss cl (Some x) w) = Some x \<or>
   (\<exists>y. fst (pos_loop ss cl (Some x) w) = Some (JoinError [y, x]))"
proof (induction ss arbitrary: w)
  case Nil
  show ?case by simp
next
  case (Cons s ss)
  obtain r w1 where s: "s cl w = (r, w1)" by (cases "s cl w")
  show ?case
  proof (cases r)
    case None
    with s Cons.IH[of w1] show ?thesis by simp
  next
    case (Some e)
    with s show ?thesis by (simp add: errors_Join_def)
  qed
qed

lemma all_None_append:
  "(\<forall>ev \<in> set (xs @ ys). snd (snd ev) = None) \<longleftrightarrow>
   (\<forall>ev \<in> set xs. snd (snd ev) = None) \<and> (\<forall>ev \<in> set ys. snd (snd ev) = None)"
  by auto

lemma passed_all_None: "\<forall>ev \<in> set (passed ph k). snd (snd ev) = None"
  by (simp add: passed_def)

lemma failures_Cons:
  "failures ((ph, i, r) # evs) =
     (case r of None \<Rightarrow> failures evs | Some e \<Rightarrow> fmt_Errorf (phase_format ph) e # failures evs)"
  by (cases r) (simp_all add: failures_def)

lemma failures_Nil: "failures [] = []"
  by (simp add: failures_def)

lemmas ex_simps = executed_def Run_def Logged_def logged_from_def logged_def tick_def fail_with_def
  errors_Join_def fmt_Errorf_def passed_def

subsection \<open>The Post phase\<close>

text \<open>
  Claim C1, as stated, fails. In \<open>post_fails\<close> the first of two post steps fails: the
  second post step is never executed (the log has no event for it and the counter stops
  at 3, one pre step, one run step and the failing post step).
\<close>

theorem post_phase_short_circuit_counterexample:
  "executed post_fails 0 = [(PreRun, 0, None), (RunRun, 0, None), (PosRun, 0, Some (New ''stop''))]
   \<and> length (pos post_fails) = 2
   \<and> Run post_fails 0 = (Some (JoinError [WrapError ''failed running pos run step: '' (New ''stop'') []]), 3)"
  by (simp add: post_fails_def ex_simps)

text \<open>
  Claim C1, amended. After a Pre phase that passed and whatever the Run phase remembered
  in \<open>runErr\<close>, the Post phase executes the post steps in registration order up to and
  including the first that fails, all of them when none fails. When none fails \<open>Run\<close>
  returns \<open>runErr\<close>; when post step \<open>k\<close> fails \<open>Run\<close> returns the join of that failure,
  wrapped, with \<open>runErr\<close>, and post steps \<open>k+1..\<close> are not executed.
\<close>

theorem post_phase_stops_at_first_failure:
  assumes "succeed (pre orch) (c orch) w = Some w1"
    and "run_loop (run orch) (c orch) w1 = (runErr, w2)"
  shows "(\<forall>w3. succeed (pos orch) (c orch) w2 = Some w3 \<longrightarrow>
            Run orch w = (runErr, w3) \<and>
            filter (\<lambda>ev. fst ev = PosRun) (executed orch w) = passed PosRun (length (pos orch))) \<and>
         (\<forall>k wk e w3. k < length (pos orch) \<and> succeed (take k (pos orch)) (c orch) w2 = Some wk \<and>
            (pos orch ! k) (c orch) wk = (Some e, w3) \<longrightarrow>
            Run orch w =
              (errors_Join [Some (fmt_Errorf ''failed running pos run step: '' e), runErr], w3) \<and>
            filter (\<lambda>ev. fst ev = PosRun) (executed orch w) = passed PosRun k @ [(PosRun, k, Some e)])"
proof -
  have p: "pre_loop (pre orch) (c orch) w = (None, w1)"
    using assms(1) by (rule succeed_pre_loop)
  have ex: "filter (\<lambda>ev. fst ev = PosRun) (executed orch w) = events PosRun 0 (pos orch) (c orch) w2"
    using p assms(2) by (simp add: executed_eq filter_events)
  have res: "Run orch w = pos_loop (pos orch) (c orch) runErr w2"
    using p assms(2) by (simp add: Run_def)
  show ?thesis
  proof (intro conjI allI impI)
    fix w3 assume "succeed (pos orch) (c orch) w2 = Some w3"
    then show "Run orch w = (runErr, w3)" by (simp add: res succeed_pos_loop)
  next
    fix w3 assume "succeed (pos orch) (c orch) w2 = Some w3"
    then show "filter (\<lambda>ev. fst ev = PosRun) (executed orch w) = passed PosRun (length (pos orch))"
      by (simp add: ex events_passed)
  next
    fix k wk e w3
    assume a: "k < length (pos orch) \<and> succeed (take k (pos orch)) (c orch) w2 = Some wk \<and>
            (pos orch ! k) (c orch) wk = (Some e, w3)"
    then have "pos_loop (pos orch) (c orch) runErr w2 =
              (errors_Join [Some (fmt_Errorf ''failed running pos run step: '' e), runErr], w3)"
      by (intro fails_at_pos_loop[of k _ _ _ wk]) simp_all
    then show "Run orch w =
              (errors_Join [Some (fmt_Errorf ''failed running pos run step: '' e), runErr], w3)"
      by (simp add: res)
  next
    fix k wk e w3
    assume a: "k < length (pos orch) \<and> succeed (take k (pos orch)) (c orch) w2 = Some wk \<and>
            (pos orch ! k) (c orch) wk = (Some e, w3)"
    then have "events PosRun 0 (pos orch) (c orch) w2 = passed PosRun k @ [(PosRun, k, Some e)]"
      by (intro events_failed[of k _ _ _ wk _ w3]) simp_all
    then show "filter (\<lambda>ev. fst ev = PosRun) (executed orch w) = passed PosRun k @ [(PosRun, k, Some e)]"
      by (simp add: ex)
  qed
qed

text \<open>The pipeline \<open>run_fails\<close>: the second of three post steps fails after a failed run step.\<close>

theorem post_phase_stops_at_first_failure_witness:
  "Run run_fails 0 =
     (Some (JoinError [WrapError ''failed running pos run step: '' (New ''stop'') [],
                       WrapError ''failed running step: '' (New ''create'') []]), 5) \<and>
   filter (\<lambda>ev. fst ev = PosRun) (executed run_fails 0) = [(PosRun, 0, None), (PosRun, 1, Some (New ''stop''))]"
proof -
  have a: "succeed (pre run_fails) (c run_fails) 0 = Some 1"
    by (simp add: run_fails_def tick_def)
  have b: "run_loop (run run_fails) (c run_fails) 1 =
             (Some (fmt_Errorf ''failed running step: '' (New ''create'')), 3)"
    by (simp add: run_fails_def tick_def fail_with_def)
  have d: "1 < length (pos run_fails) \<and> succeed (take 1 (pos run_fails)) (c run_fails) 3 = Some 4 \<and>
            (pos run_fails ! 1) (c run_fails) 4 = (Some (New ''stop''), 5)"
    by (simp add: run_fails_def tick_def fail_with_def)
  from post_phase_stops_at_first_failure[OF a b] d
  have "Run run_fails 0 =
              (errors_Join [Some (fmt_Errorf ''failed running pos run step: '' (New ''stop'')),
                 Some (fmt_Errorf ''failed running step: '' (New ''create''))], 5) \<and>
            filter (\<lambda>ev. fst ev = PosRun) (executed run_fails 0) = passed PosRun 1 @ [(PosRun, 1, Some (New ''stop''))]"
    by blast
  then show ?thesis by (simp add: errors_Join_def fmt_Errorf_def passed_def)
qed

subsection \<open>A failure in the Run phase\<close>

text \<open>
  Claim C3. If run step \<open>k\<close> fails after a Pre phase that passed, the steps executed are
  all the pre steps, the run steps \<open>0..k\<close> and then the Post phase, run from the world the
  failing step left with the wrapped failure remembered: run steps \<open>k+1..\<close> are not
  executed, the first post step (if one is registered) is, and the error \<open>Run\<close> returns is
  not \<open>nil\<close> and wraps the failure of the run step.
\<close>

theorem run_failure_skips_to_post:
  assumes "succeed (pre orch) (c orch) w = Some w1"
    and "k < length (run orch)"
    and "succeed (take k (run orch)) (c orch) w1 = Some wk"
    and "(run orch ! k) (c orch) wk = (Some e, w2)"
  shows "executed orch w =
           passed PreRun (length (pre orch)) @ passed RunRun k @ [(RunRun, k, Some e)]
           @ events PosRun 0 (pos orch) (c orch) w2 \<and>
         (pos orch \<noteq> [] \<longrightarrow> (PosRun, 0, fst (hd (pos orch) (c orch) w2)) \<in> set (executed orch w)) \<and>
         Run orch w = pos_loop (pos orch) (c orch) (Some (fmt_Errorf ''failed running step: '' e)) w2 \<and>
         (\<exists>err. fst (Run orch w) = Some err \<and> errors_Is err (fmt_Errorf ''failed running step: '' e))"
proof -
  let ?x = "fmt_Errorf ''failed running step: '' e"
  have p: "pre_loop (pre orch) (c orch) w = (None, w1)"
    using assms(1) by (rule succeed_pre_loop)
  have pe: "events PreRun 0 (pre orch) (c orch) w = passed PreRun (length (pre orch))"
    using assms(1) by (rule events_passed)
  have r: "run_loop (run orch) (c orch) w1 = (Some ?x, w2)"
    using assms(2,3,4) by (rule fails_at_run_loop)
  have re: "events RunRun 0 (run orch) (c orch) w1 = passed RunRun k @ [(RunRun, k, Some e)]"
    using assms(2,3,4) by (rule events_failed)
  have ex: "executed orch w =
           passed PreRun (length (pre orch)) @ passed RunRun k @ [(RunRun, k, Some e)]
           @ events PosRun 0 (pos orch) (c orch) w2"
    using p pe r re by (simp add: executed_eq)
  have first: "(PosRun, 0, fst (hd (pos orch) (c orch) w2))
                 \<in> set (events PosRun 0 (pos orch) (c orch) w2)" if "pos orch \<noteq> []"
  proof -
    from that obtain s ss where ps: "pos orch = s # ss" by (cases "pos orch") auto
    obtain r w' where "s (c orch) w2 = (r, w')" by (cases "s (c orch) w2")
    then show ?thesis by (cases r) (simp_all add: ps)
  qed
  have res: "Run orch w = pos_loop (pos orch) (c orch) (Some ?x) w2"
    using p r by (simp add: Run_def)
  have "\<exists>err. fst (Run orch w) = Some err \<and> errors_Is err ?x"
    using pos_loop_keeps[of "pos orch" "c orch" ?x w2] res by (auto simp: errors_Is_refl)
  with ex first res show ?thesis by simp
qed

text \<open>The pipeline \<open>run_fails\<close>: the second of three run steps fails.\<close>

theorem run_failure_skips_to_post_witness:
  "executed run_fails 0 =
     [(PreRun, 0, None), (RunRun, 0, None), (RunRun, 1, Some (New ''create'')),
      (PosRun, 0, None), (PosRun, 1, Some (New ''stop''))] \<and>
   (\<exists>err. fst (Run run_fails 0) = Some err \<and>
      errors_Is err (WrapError ''failed running step: '' (New ''create'') []))"
proof -
  have a: "succeed (pre run_fails) (c run_fails) 0 = Some 1"
    by (simp add: run_fails_def tick_def)
  have b: "1 < length (run run_fails)" by (simp add: run_fails_def)
  have d: "succeed (take 1 (run run_fails)) (c run_fails) 1 = Some 2"
    by (simp add: run_fails_def tick_def)
  have e: "(run run_fails ! 1) (c run_fails) 2 = (Some (New ''create''), 3)"
    by (simp add: run_fails_def fail_with_def)
  from run_failure_skips_to_post[OF a b d e] show ?thesis
    by (simp add: run_fails_def ex_simps)
qed

subsection \<open>A failure in the Pre phase\<close>

text \<open>
  Claim C4. If pre step \<open>k\<close> fails (the pre steps before it having returned \<open>nil\<close>), \<open>Run\<close>
  returns that one error, wrapped and joined with nothing, in the world that step left,
  and the steps executed are the pre steps \<open>0..k\<close> alone: no later pre step, no run step
  and no post step.
\<close>

theorem pre_failure_returns_at_once:
  assumes "k < length (pre orch)"
    and "succeed (take k (pre orch)) (c orch) w = Some wk"
    and "(pre orch ! k) (c orch) wk = (Some e, w')"
  shows "Run orch w = (Some (fmt_Errorf ''failed running pre run step: '' e), w') \<and>
         executed orch w = passed PreRun k @ [(PreRun, k, Some e)]"
proof -
  have loop: "pre_loop (pre orch) (c orch) w =
                (Some (fmt_Errorf ''failed running pre run step: '' e), w')"
    using assms by (rule fails_at_pre_loop)
  have evs: "events PreRun 0 (pre orch) (c orch) w = passed PreRun k @ [(PreRun, k, Some e)]"
    using assms by (rule events_failed)
  show ?thesis using loop evs by (simp add: Run_def executed_eq)
qed

text \<open>The pipeline \<open>pre_fails\<close>: the second of three pre steps fails.\<close>

theorem pre_failure_returns_at_once_witness:
  "Run pre_fails 0 = (Some (WrapError ''failed running pre run step: '' (New ''build'') []), 2) \<and>
   executed pre_fails 0 = [(PreRun, 0, None), (PreRun, 1, Some (New ''build''))]"
proof -
  have a: "1 < length (pre pre_fails)" by (simp add: pre_fails_def)
  have b: "succeed (take 1 (pre pre_fails)) (c pre_fails) 0 = Some 1"
    by (simp add: pre_fails_def tick_def)
  have d: "(pre pre_fails ! 1) (c pre_fails) 1 = (Some (New ''build''), 2)"
    by (simp add: pre_fails_def fail_with_def)
  from pre_failure_returns_at_once[OF a b d] show ?thesis
    by (simp add: fmt_Errorf_def passed_def)
qed

subsection \<open>The result of a run\<close>

text \<open>
  Claim C5. \<open>Run\<close> returns \<open>nil\<close> exactly when every step it executed returned \<open>nil\<close>.
  Otherwise the errors its result combines are the wrapped failures of the executed steps,
  the Post failure before the Run failure.
\<close>

theorem Run_nil_iff_all_steps_nil:
  "(fst (Run orch w) = None \<longleftrightarrow> (\<forall>ev \<in> set (executed orch w). snd (snd ev) = None)) \<and>
   components (fst (Run orch w)) = rev (failures (executed orch w))"
proof -
  let ?cl = "c orch"
  consider
    (pre_fail) k wk e w' where "k < length (pre orch)"
      "succeed (take k (pre orch)) ?cl w = Some wk" "(pre orch ! k) ?cl wk = (Some e, w')"
  | (pre_ok) w1 where "succeed (pre orch) ?cl w = Some w1"
    using succeed_or_fails[of "pre orch" ?cl w] by blast
  then show ?thesis
  proof cases
    case pre_fail
    from fails_at_pre_loop[OF pre_fail] events_failed[OF pre_fail, of PreRun]
    show ?thesis
      by (simp add: Run_def executed_eq failures_append failures_passed failures_Nil failures_Cons
          passed_all_None ball_Un fmt_Errorf_def)
  next
    case pre_ok
    note p = succeed_pre_loop[OF pre_ok] and pe = events_passed[OF pre_ok, of PreRun]
    consider
      (run_fail) k wk e w2 where "k < length (run orch)"
        "succeed (take k (run orch)) ?cl w1 = Some wk" "(run orch ! k) ?cl wk = (Some e, w2)"
    | (run_ok) w2 where "succeed (run orch) ?cl w1 = Some w2"
      using succeed_or_fails[of "run orch" ?cl w1] by blast
    then show ?thesis
    proof cases
      case run_fail
      note r = fails_at_run_loop[OF run_fail] and re = events_failed[OF run_fail, of RunRun]
      consider
        (pos_fail) j wj e' w3 where "j < length (pos orch)"
          "succeed (take j (pos orch)) ?cl w2 = Some wj" "(pos orch ! j) ?cl wj = (Some e', w3)"
      | (pos_ok) w3 where "succeed (pos orch) ?cl w2 = Some w3"
        using succeed_or_fails[of "pos orch" ?cl w2] by blast
      then show ?thesis
      proof cases
        case pos_fail
        from p pe r re fails_at_pos_loop[OF pos_fail] events_failed[OF pos_fail, of PosRun]
        show ?thesis
          by (simp add: Run_def executed_eq failures_append failures_passed failures_Nil failures_Cons
              passed_all_None ball_Un fmt_Errorf_def errors_Join_def)
      next
        case pos_ok
        from p pe r re succeed_pos_loop[OF pos_ok] events_passed[OF pos_ok, of PosRun]
        show ?thesis
          by (simp add: Run_def executed_eq failures_append failures_passed failures_Nil failures_Cons
              passed_all_None ball_Un fmt_Errorf_def errors_Join_def)
      qed
    next
      case run_ok
      note r = succeed_run_loop[OF run_ok] and re = events_passed[OF run_ok, of RunRun]
      consider
        (pos_fail) j wj e' w3 where "j < length (pos orch)"
          "succeed (take j (pos orch)) ?cl w2 = Some wj" "(pos orch ! j) ?cl wj = (Some e', w3)"
      | (pos_ok) w3 where "succeed (pos orch) ?cl w2 = Some w3"
        using succeed_or_fails[of "pos orch" ?cl w2] by blast
      then show ?thesis
      proof cases
        case pos_fail
        from p pe r re fails_at_pos_loop[OF pos_fail] events_failed[OF pos_fail, of PosRun]
        show ?thesis
          by (simp add: Run_def executed_eq failures_append failures_passed failures_Nil failures_Cons
              passed_all_None ball_Un fmt_Errorf_def errors_Join_def)
      next
        case pos_ok
        from p pe r re succeed_pos_loop[OF pos_ok] events_passed[OF pos_ok, of PosRun]
        show ?thesis
          by (simp add: Run_def executed_eq failures_append failures_passed failures_Nil failures_Cons
              passed_all_None ball_Un fmt_Errorf_def errors_Join_def)
      qed
    qed
  qed
qed

text \<open>The pipelines \<open>run_fails\<close> and \<open>post_fails\<close>.\<close>

theorem Run_nil_iff_all_steps_nil_witness:
  "fst (Run run_fails 0) \<noteq> None \<and> \<not> (\<forall>ev \<in> set (executed run_fails 0). snd (snd ev) = None) \<and>
   components (fst (Run run_fails 0)) =
     [WrapError ''failed running pos run step: '' (New ''stop'') [],
      WrapError ''failed running step: '' (New ''create'') []] \<and>
   fst (Run post_fails 0) \<noteq> None"
  using Run_nil_iff_all_steps_nil[of run_fails 0]
  by (simp add: run_fails_def post_fails_def ex_simps failures_def)

section \<open>Properties of the provisioning steps\<close>

lemma ContainerStopStep_append:
  "ContainerStopStep (xs @ ys) cl w =
     (case ContainerStopStep xs cl w of
        (None, w') \<Rightarrow> ContainerStopStep ys cl w'
      | (Some e, w') \<Rightarrow> (Some e, w'))"
  by (induction xs arbitrary: w) (auto simp: Let_def split: option.splits)

lemma ContainerStopStep_containers:
  "containers (snd (ContainerStopStep specs cl w)) = containers w"
  by (induction specs arbitrary: w) (auto simp: Let_def called_def split: option.splits)

lemma ContainerStopStep_pass:
  "ContainerStopStep specs cl w = (None, w') \<Longrightarrow>
   w' = w\<lparr>calls := calls w @ map (stop_call w) specs\<rparr>"
proof (induction specs arbitrary: w)
  case Nil
  then show ?case by simp
next
  case (Cons s specs)
  let ?w1 = "called (stop_call w s) w"
  from Cons.prems have rest: "ContainerStopStep specs cl ?w1 = (None, w')"
    by (auto simp: Let_def stop_call_def split: option.splits)
  have "map (stop_call ?w1) specs = map (stop_call w) specs"
    by (simp add: stop_call_def called_def)
  with Cons.IH[OF rest] show ?case by (simp add: called_def)
qed

lemma ContainerStopStep_fails_at:
  assumes "i < length specs"
    and "ContainerStopStep (take i specs) cl w = (None, wi)"
    and "ContainerStop cl (calls wi) (Container.ID (containers wi (specs ! i))) = Some e"
  shows "ContainerStopStep specs cl w =
           (Some (fmt_Errorf (''failed to stop '' @ Container.Name (containers w (specs ! i))
                              @ '' container: '') e),
            w\<lparr>calls := calls w @ map (stop_call w) (take (Suc i) specs)\<rparr>)"
proof -
  have split: "specs = take i specs @ (specs ! i) # drop (Suc i) specs"
    using assms(1) by (simp add: id_take_nth_drop)
  have wi: "wi = w\<lparr>calls := calls w @ map (stop_call w) (take i specs)\<rparr>"
    using assms(2) by (rule ContainerStopStep_pass)
  have "ContainerStopStep specs cl w = ContainerStopStep ((specs ! i) # drop (Suc i) specs) cl wi"
    using assms(2) ContainerStopStep_append[of "take i specs" "(specs ! i) # drop (Suc i) specs" cl w]
      split by simp
  also have "\<dots> = (Some (fmt_Errorf (''failed to stop '' @ Container.Name (containers wi (specs ! i))
                              @ '' container: '') e), called (stop_call wi (specs ! i)) wi)"
    using assms(3) by (simp add: Let_def stop_call_def)
  finally show ?thesis using assms(1)
    by (simp add: wi called_def stop_call_def take_Suc_conv_app_nth)
qed

lemma ContainerStartStep_append:
  "ContainerStartStep (xs @ ys) cl w =
     (case ContainerStartStep xs cl w of
        (None, w') \<Rightarrow> ContainerStartStep ys cl w'
      | (Some e, w') \<Rightarrow> (Some e, w'))"
  by (induction xs arbitrary: w) (auto simp: Let_def split: option.splits)

lemma ContainerStartStep_containers:
  "containers (snd (ContainerStartStep specs cl w)) = containers w"
  by (induction specs arbitrary: w) (auto simp: Let_def called_def split: option.splits)

lemma ContainerStartStep_pass:
  "ContainerStartStep specs cl w = (None, w') \<Longrightarrow>
   w' = w\<lparr>calls := calls w @ map (start_call w) specs\<rparr>"
proof (induction specs arbitrary: w)
  case Nil
  then show ?case by simp
next
  case (Cons s specs)
  let ?w1 = "called (start_call w s) w"
  from Cons.prems have rest: "ContainerStartStep specs cl ?w1 = (None, w')"
    by (auto simp: Let_def start_call_def split: option.splits)
  have "map (start_call ?w1) specs = map (start_call w) specs"
    by (simp add: start_call_def called_def)
  with Cons.IH[OF rest] show ?case by (simp add: called_def)
qed

lemma ContainerStartStep_fails_at:
  assumes "i < length specs"
    and "ContainerStartStep (take i specs) cl w = (None, wi)"
    and "ContainerStart cl (calls wi) (Container.ID (containers wi (specs ! i))) = Some e"
  shows "ContainerStartStep specs cl w =
           (Some (fmt_Errorf (''failed to start '' @ Container.Name (containers w (specs ! i))
                              @ '' container: '') e),
            w\<lparr>calls := calls w @ map (start_call w) (take (Suc i) specs)\<rparr>)"
proof -
  have split: "specs = take i specs @ (specs ! i) # drop (Suc i) specs"
    using assms(1) by (simp add: id_take_nth_drop)
  have wi: "wi = w\<lparr>calls := calls w @ map (start_call w) (take i specs)\<rparr>"
    using assms(2) by (rule ContainerStartStep_pass)
  have "ContainerStartStep specs cl w = ContainerStartStep ((specs ! i) # drop (Suc i) specs) cl wi"
    using assms(2) ContainerStartStep_append[of "take i specs" "(specs ! i) # drop (Suc i) specs" cl w]
      split by simp
  also have "\<dots> = (Some (fmt_Errorf (''failed to start '' @ Container.Name (containers wi (specs ! i))
                              @ '' container: '') e), called (start_call wi (specs ! i)) wi)"
    using assms(3) by (simp add: Let_def start_call_def)
  finally show ?thesis using assms(1)
    by (simp add: wi called_def start_call_def take_Suc_conv_app_nth)
qed


lemma ContainerRemoveStep_append:
  "ContainerRemoveStep (xs @ ys) cl w =
     (case ContainerRemoveStep xs cl w of
        (None, w') \<Rightarrow> ContainerRemoveStep ys cl w'
      | (Some e, w') \<Rightarrow> (Some e, w'))"
  by (induction xs arbitrary: w) (auto simp: Let_def split: option.splits)

lemma ContainerRemoveStep_containers:
  "containers (snd (ContainerRemoveStep specs cl w)) = containers w"
  by (induction specs arbitrary: w) (auto simp: Let_def called_def split: option.splits)

lemma ContainerRemoveStep_pass:
  "ContainerRemoveStep specs cl w = (None, w') \<Longrightarrow>
   w' = w\<lparr>calls := calls w @ map (remove_call w) specs\<rparr>"
proof (induction specs arbitrary: w)
  case Nil
  then show ?case by simp
next
  case (Cons s specs)
  let ?w1 = "called (remove_call w s) w"
  from Cons.prems have rest: "ContainerRemoveStep specs cl ?w1 = (None, w')"
    by (auto simp: Let_def remove_call_def split: option.splits)
  have "map (remove_call ?w1) specs = map (remove_call w) specs"
    by (simp add: remove_call_def called_def)
  with Cons.IH[OF rest] show ?case by (simp add: called_def)
qed

lemma ContainerRemoveStep_fails_at:
  assumes "i < length specs"
    and "ContainerRemoveStep (take i specs) cl w = (None, wi)"
    and "ContainerRemove cl (calls wi) (Container.ID (containers wi (specs ! i))) = Some e"
  shows "ContainerRemoveStep specs cl w =
           (Some (fmt_Errorf (''failed to remove '' @ Container.Name (containers w (specs ! i))
                              @ '' container: '') e),
            w\<lparr>calls := calls w @ map (remove_call w) (take (Suc i) specs)\<rparr>)"
proof -
  have split: "specs = take i specs @ (specs ! i) # drop (Suc i) specs"
    using assms(1) by (simp add: id_take_nth_drop)
  have wi: "wi = w\<lparr>calls := calls w @ map (remove_call w) (take i specs)\<rparr>"
    using assms(2) by (rule ContainerRemoveStep_pass)
  have "ContainerRemoveStep specs cl w = ContainerRemoveStep ((specs ! i) # drop (Suc i) specs) cl wi"
    using assms(2) ContainerRemoveStep_append[of "take i specs" "(specs ! i) # drop (Suc i) specs" cl w]
      split by simp
  also have "\<dots> = (Some (fmt_Errorf (''failed to remove '' @ Container.Name (containers wi (specs ! i))
                              @ '' container: '') e), called (remove_call wi (specs ! i)) wi)"
    using assms(3) by (simp add: Let_def remove_call_def)
  finally show ?thesis using assms(1)
    by (simp add: wi called_def remove_call_def take_Suc_conv_app_nth)
qed



lemma create_call_cong:
  "\<forall>p. \<exists>rid. containers w1 p = (containers w p)\<lparr>Container.ID := rid\<rparr> \<Longrightarrow>
   create_call w1 = create_call w"
proof
  fix p
  assume a: "\<forall>p. \<exists>rid. containers w1 p = (containers w p)\<lparr>Container.ID := rid\<rparr>"
  then obtain rid where "containers w1 p = (containers w p)\<lparr>Container.ID := rid\<rparr>" by blast
  then show "create_call w1 p = create_call w p" by (simp add: create_call_def)
qed

lemma ContainerCreateStep_append:
  "ContainerCreateStep (xs @ ys) cl w =
     (case ContainerCreateStep xs cl w of
        (None, w') \<Rightarrow> ContainerCreateStep ys cl w'
      | (Some e, w') \<Rightarrow> (Some e, w'))"
  by (induction xs arbitrary: w) (auto simp: Let_def split: sum.splits)

lemma Container_self_update:
  "\<exists>rid. (r :: ('cfg, 'net) Container) = r\<lparr>Container.ID := rid\<rparr>"
  by (rule exI[of _ "Container.ID r"]) simp

lemma ContainerCreateStep_only_ID:
  "\<exists>rid. containers (snd (ContainerCreateStep specs cl w)) p = (containers w p)\<lparr>Container.ID := rid\<rparr>"
proof (induction specs arbitrary: w)
  case Nil
  show ?case using Container_self_update[of "containers w p"] by simp
next
  case (Cons s specs)
  show ?case
  proof (cases "create_response cl (calls w) w s")
    case (Inl e)
    have "\<exists>rid. containers w p = (containers w p)\<lparr>Container.ID := rid\<rparr>"
      by (rule Container_self_update)
    with Inl show ?thesis
      by (simp add: Let_def create_response_def called_def)
  next
    case (Inr rid)
    let ?w1 = "(called (create_call w s) w)\<lparr>containers := (containers w)(s := (containers w s)\<lparr>Container.ID := rid\<rparr>)\<rparr>"
    from Inr have eq: "ContainerCreateStep (s # specs) cl w = ContainerCreateStep specs cl ?w1"
      by (simp add: Let_def create_response_def called_def create_call_def)
    from Cons.IH[of ?w1] obtain r2 where
      "containers (snd (ContainerCreateStep specs cl ?w1)) p = (containers ?w1 p)\<lparr>Container.ID := r2\<rparr>"
      by blast
    then have "containers (snd (ContainerCreateStep (s # specs) cl w)) p = (containers w p)\<lparr>Container.ID := r2\<rparr>"
      unfolding eq by (cases "p = s") (simp_all add: called_def)
    then show ?thesis by blast
  qed
qed

lemma ContainerCreateStep_calls:
  "ContainerCreateStep specs cl w = (None, w') \<Longrightarrow> calls w' = calls w @ map (create_call w) specs"
proof (induction specs arbitrary: w)
  case Nil
  then show ?case by simp
next
  case (Cons s specs)
  from Cons.prems obtain rid where r: "create_response cl (calls w) w s = Inr rid"
    by (cases "create_response cl (calls w) w s")
       (auto simp: Let_def create_response_def)
  let ?w1 = "(called (create_call w s) w)\<lparr>containers := (containers w)(s := (containers w s)\<lparr>Container.ID := rid\<rparr>)\<rparr>"
  from r Cons.prems have rest: "ContainerCreateStep specs cl ?w1 = (None, w')"
    by (simp add: Let_def create_response_def called_def create_call_def)
  have "create_call ?w1 = create_call w"
    by (rule ext) (simp add: create_call_def called_def)
  with Cons.IH[OF rest] show ?case by (simp add: called_def)
qed

lemma ContainerCreateStep_others:
  "p \<notin> set specs \<Longrightarrow> containers (snd (ContainerCreateStep specs cl w)) p = containers w p"
proof (induction specs arbitrary: w)
  case Nil
  then show ?case by simp
next
  case (Cons s specs)
  then have ps: "p \<noteq> s" and pr: "p \<notin> set specs" by auto
  show ?case
  proof (cases "create_response cl (calls w) w s")
    case (Inl e)
    then show ?thesis by (simp add: Let_def create_response_def called_def)
  next
    case (Inr rid)
    let ?w1 = "(called (create_call w s) w)\<lparr>containers := (containers w)(s := (containers w s)\<lparr>Container.ID := rid\<rparr>)\<rparr>"
    from Inr have eq: "ContainerCreateStep (s # specs) cl w = ContainerCreateStep specs cl ?w1"
      by (simp add: Let_def create_response_def called_def create_call_def)
    show ?thesis unfolding eq using Cons.IH[OF pr, of ?w1] ps by (simp add: called_def)
  qed
qed

lemma ContainerCreateStep_ids:
  "\<lbrakk>distinct specs; ContainerCreateStep specs cl w = (None, w'); j < length specs\<rbrakk> \<Longrightarrow>
   create_response cl (calls w @ map (create_call w) (take j specs)) w (specs ! j)
     = Inr (Container.ID (containers w' (specs ! j)))"
proof (induction specs arbitrary: w j)
  case Nil
  then show ?case by simp
next
  case (Cons s specs)
  from Cons.prems obtain rid where r: "create_response cl (calls w) w s = Inr rid"
    by (cases "create_response cl (calls w) w s")
       (auto simp: Let_def create_response_def)
  let ?w1 = "(called (create_call w s) w)\<lparr>containers := (containers w)(s := (containers w s)\<lparr>Container.ID := rid\<rparr>)\<rparr>"
  from r Cons.prems have rest: "ContainerCreateStep specs cl ?w1 = (None, w')"
    by (simp add: Let_def create_response_def called_def create_call_def)
  have cc: "create_call ?w1 = create_call w"
    by (rule ext) (simp add: create_call_def called_def)
  have cr: "\<And>h p. create_response cl h ?w1 p = create_response cl h w p"
    by (simp add: create_response_def called_def)
  from Cons.prems have d: "distinct specs" and ns: "s \<notin> set specs" by simp_all
  show ?case
  proof (cases j)
    case 0
    have "containers w' s = containers ?w1 s"
      using ContainerCreateStep_others[OF ns, of cl ?w1] rest by simp
    then show ?thesis using 0 r by (simp add: called_def)
  next
    case (Suc j')
    with Cons.prems have "j' < length specs" by simp
    from Cons.IH[OF d rest this]
    have "create_response cl (calls ?w1 @ map (create_call w) (take j' specs)) w (specs ! j')
            = Inr (Container.ID (containers w' (specs ! j')))"
      by (simp only: cc cr)
    moreover have "calls ?w1 = calls w @ [create_call w s]" by (simp add: called_def)
    ultimately show ?thesis using Suc by simp
  qed
qed

lemma ContainerCreateStep_fails_at:
  assumes "i < length specs"
    and "ContainerCreateStep (take i specs) cl w = (None, wi)"
    and "create_response cl (calls wi) wi (specs ! i) = Inl e"
  shows "ContainerCreateStep specs cl w =
           (Some (fmt_Errorf (''failed to create '' @ Container.Name (containers w (specs ! i))
                              @ '' container: '') e),
            wi\<lparr>calls := calls w @ map (create_call w) (take (Suc i) specs)\<rparr>)"
proof -
  have split: "specs = take i specs @ (specs ! i) # drop (Suc i) specs"
    using assms(1) by (simp add: id_take_nth_drop)
  have wi: "calls wi = calls w @ map (create_call w) (take i specs)"
    using assms(2) by (rule ContainerCreateStep_calls)
  have only: "\<forall>p. \<exists>rid. containers wi p = (containers w p)\<lparr>Container.ID := rid\<rparr>"
    using ContainerCreateStep_only_ID[of "take i specs" cl w] assms(2) by simp
  have cc: "create_call wi = create_call w" using only by (rule create_call_cong)
  have nm: "Container.Name (containers wi (specs ! i)) = Container.Name (containers w (specs ! i))"
    using cc by (metis call.inject(1) create_call_def)
  have "ContainerCreateStep specs cl w = ContainerCreateStep ((specs ! i) # drop (Suc i) specs) cl wi"
    using assms(2) ContainerCreateStep_append[of "take i specs" "(specs ! i) # drop (Suc i) specs" cl w]
      split by simp
  also have "\<dots> = (Some (fmt_Errorf (''failed to create '' @ Container.Name (containers wi (specs ! i))
                              @ '' container: '') e), called (create_call wi (specs ! i)) wi)"
    using assms(3) by (simp add: Let_def create_call_def create_response_def)
  finally show ?thesis using assms(1)
    by (simp add: wi nm cc called_def take_Suc_conv_app_nth)
qed

lemmas fake_simps = fake_def bench_def blank_def called_def create_call_def start_call_def
  stop_call_def remove_call_def create_response_def fmt_Errorf_def Let_def

lemma created_eq:
  "created = bench\<lparr>containers := (\<lambda>p. blank)
        (0 := blank\<lparr>Container.Name := ''client'', LogSink := Some 10, StatSink := Some 11,
                     Container.ID := ''id-client''\<rparr>,
         1 := blank\<lparr>Container.Name := ''server'', StatSink := Some 12, Container.ID := ''id-server''\<rparr>,
         2 := blank\<lparr>Container.Name := ''probe'', Container.ID := ''id-probe''\<rparr>),
      calls := [ContainerCreateCall () () ''client'', ContainerCreateCall () () ''server'',
                ContainerCreateCall () () ''probe'']\<rparr>"
  by (simp add: created_def fake_simps fun_eq_iff)

text \<open>
  Claim C7. Each of the four steps makes its calls in the order of \<open>specs\<close> and stops at
  the first error of the backend. If the step run on the first \<open>i\<close> containers alone returns
  \<open>nil\<close> and the backend then answers the call for container \<open>i\<close> with the error \<open>e\<close>, the
  step returns \<open>e\<close> wrapped in a message that names container \<open>i\<close>, and the calls it has
  made are those for the containers \<open>0..i\<close>, in order: none for a container after \<open>i\<close>.
\<close>

theorem provisioning_steps_fail_fast:
  assumes "i < length specs"
  shows "(ContainerCreateStep (take i specs) cl w = (None, wi) \<and>
            create_response cl (calls wi) wi (specs ! i) = Inl e \<longrightarrow>
          fst (ContainerCreateStep specs cl w) =
            Some (fmt_Errorf (''failed to create '' @ Container.Name (containers w (specs ! i))
                              @ '' container: '') e) \<and>
          calls (snd (ContainerCreateStep specs cl w)) =
            calls w @ map (create_call w) (take (Suc i) specs)) \<and>
         (ContainerStartStep (take i specs) cl w = (None, wi) \<and>
            ContainerStart cl (calls wi) (Container.ID (containers wi (specs ! i))) = Some e \<longrightarrow>
          fst (ContainerStartStep specs cl w) =
            Some (fmt_Errorf (''failed to start '' @ Container.Name (containers w (specs ! i))
                              @ '' container: '') e) \<and>
          calls (snd (ContainerStartStep specs cl w)) =
            calls w @ map (start_call w) (take (Suc i) specs)) \<and>
         (ContainerStopStep (take i specs) cl w = (None, wi) \<and>
            ContainerStop cl (calls wi) (Container.ID (containers wi (specs ! i))) = Some e \<longrightarrow>
          fst (ContainerStopStep specs cl w) =
            Some (fmt_Errorf (''failed to stop '' @ Container.Name (containers w (specs ! i))
                              @ '' container: '') e) \<and>
          calls (snd (ContainerStopStep specs cl w)) =
            calls w @ map (stop_call w) (take (Suc i) specs)) \<and>
         (ContainerRemoveStep (take i specs) cl w = (None, wi) \<and>
            ContainerRemove cl (calls wi) (Container.ID (containers wi (specs ! i))) = Some e \<longrightarrow>
          fst (ContainerRemoveStep specs cl w) =
            Some (fmt_Errorf (''failed to remove '' @ Container.Name (containers w (specs ! i))
                              @ '' container: '') e) \<and>
          calls (snd (ContainerRemoveStep specs cl w)) =
            calls w @ map (remove_call w) (take (Suc i) specs))"
proof (intro conjI impI)
  assume "ContainerCreateStep (take i specs) cl w = (None, wi) \<and>
            create_response cl (calls wi) wi (specs ! i) = Inl e"
  then have r: "ContainerCreateStep specs cl w =
           (Some (fmt_Errorf (''failed to create '' @ Container.Name (containers w (specs ! i))
                              @ '' container: '') e),
            wi\<lparr>calls := calls w @ map (create_call w) (take (Suc i) specs)\<rparr>)"
    using assms by (intro ContainerCreateStep_fails_at) simp_all
  show "fst (ContainerCreateStep specs cl w) =
            Some (fmt_Errorf (''failed to create '' @ Container.Name (containers w (specs ! i))
                              @ '' container: '') e)" by (simp add: r)
  show "calls (snd (ContainerCreateStep specs cl w)) =
            calls w @ map (create_call w) (take (Suc i) specs)" by (simp add: r)
next
  assume "ContainerStartStep (take i specs) cl w = (None, wi) \<and>
            ContainerStart cl (calls wi) (Container.ID (containers wi (specs ! i))) = Some e"
  then have r: "ContainerStartStep specs cl w =
           (Some (fmt_Errorf (''failed to start '' @ Container.Name (containers w (specs ! i))
                              @ '' container: '') e),
            w\<lparr>calls := calls w @ map (start_call w) (take (Suc i) specs)\<rparr>)"
    using assms by (intro ContainerStartStep_fails_at[of _ _ _ _ wi]) simp_all
  show "fst (ContainerStartStep specs cl w) =
            Some (fmt_Errorf (''failed to start '' @ Container.Name (containers w (specs ! i))
                              @ '' container: '') e)" by (simp add: r)
  show "calls (snd (ContainerStartStep specs cl w)) =
            calls w @ map (start_call w) (take (Suc i) specs)" by (simp add: r)
next
  assume "ContainerStopStep (take i specs) cl w = (None, wi) \<and>
            ContainerStop cl (calls wi) (Container.ID (containers wi (specs ! i))) = Some e"
  then have r: "ContainerStopStep specs cl w =
           (Some (fmt_Errorf (''failed to stop '' @ Container.Name (containers w (specs ! i))
                              @ '' container: '') e),
            w\<lparr>calls := calls w @ map (stop_call w) (take (Suc i) specs)\<rparr>)"
    using assms by (intro ContainerStopStep_fails_at[of _ _ _ _ wi]) simp_all
  show "fst (ContainerStopStep specs cl w) =
            Some (fmt_Errorf (''failed to stop '' @ Container.Name (containers w (specs ! i))
                              @ '' container: '') e)" by (simp add: r)
  show "calls (snd (ContainerStopStep specs cl w)) =
            calls w @ map (stop_call w) (take (Suc i) specs)" by (simp add: r)
next
  assume "ContainerRemoveStep (take i specs) cl w = (None, wi) \<and>
            ContainerRemove cl (calls wi) (Container.ID (containers wi (specs ! i))) = Some e"
  then have r: "ContainerRemoveStep specs cl w =
           (Some (fmt_Errorf (''failed to remove '' @ Container.Name (containers w (specs ! i))
                              @ '' container: '') e),
            w\<lparr>calls := calls w @ map (remove_call w) (take (Suc i) specs)\<rparr>)"
    using assms by (intro ContainerRemoveStep_fails_at[of _ _ _ _ wi]) simp_all
  show "fst (ContainerRemoveStep specs cl w) =
            Some (fmt_Errorf (''failed to remove '' @ Container.Name (containers w (specs ! i))
                              @ '' container: '') e)" by (simp add: r)
  show "calls (snd (ContainerRemoveStep specs cl w)) =
            calls w @ map (remove_call w) (take (Suc i) specs)" by (simp add: r)
qed

text \<open>The fake refuses the second of the three containers, \<open>server\<close>.\<close>

theorem provisioning_steps_fail_fast_witness:
  "fst (ContainerCreateStep [0, 1, 2] (fake ''server'' [] []) bench)
     = Some (WrapError ''failed to create server container: '' (New ''no such image'') []) \<and>
   calls (snd (ContainerCreateStep [0, 1, 2] (fake ''server'' [] []) bench))
     = [ContainerCreateCall () () ''client'', ContainerCreateCall () () ''server''] \<and>
   fst (ContainerStartStep [0, 1, 2] (fake ''server'' [] []) created)
     = Some (WrapError ''failed to start server container: '' (New ''cannot start'') []) \<and>
   calls (snd (ContainerStartStep [0, 1, 2] (fake ''server'' [] []) created))
     = calls created @ [ContainerStartCall ''id-client'', ContainerStartCall ''id-server''] \<and>
   fst (ContainerStopStep [0, 1, 2] (fake ''server'' [] []) created)
     = Some (WrapError ''failed to stop server container: '' (New ''cannot stop'') []) \<and>
   calls (snd (ContainerStopStep [0, 1, 2] (fake ''server'' [] []) created))
     = calls created @ [ContainerStopCall ''id-client'', ContainerStopCall ''id-server''] \<and>
   fst (ContainerRemoveStep [0, 1, 2] (fake ''server'' [] []) created)
     = Some (WrapError ''failed to remove server container: '' (New ''cannot remove'') []) \<and>
   calls (snd (ContainerRemoveStep [0, 1, 2] (fake ''server'' [] []) created))
     = calls created @ [ContainerRemoveCall ''id-client'', ContainerRemoveCall ''id-server'']"
proof -
  let ?cl = "fake ''server'' [] []"
  let ?specs = "[0, 1, 2] :: nat list"
  have i: "1 < length ?specs" by simp
  let ?c1 = "snd (ContainerCreateStep (take 1 ?specs) ?cl bench)"
  have c: "ContainerCreateStep (take 1 ?specs) ?cl bench = (None, ?c1) \<and>
           create_response ?cl (calls ?c1) ?c1 (?specs ! 1) = Inl (New ''no such image'')"
    by (simp add: fake_simps)
  let ?s1 = "snd (ContainerStartStep (take 1 ?specs) ?cl created)"
  have s: "ContainerStartStep (take 1 ?specs) ?cl created = (None, ?s1) \<and>
           ContainerStart ?cl (calls ?s1) (Container.ID (containers ?s1 (?specs ! 1)))
             = Some (New ''cannot start'')"
    by (simp add: created_eq fake_simps)
  let ?t1 = "snd (ContainerStopStep (take 1 ?specs) ?cl created)"
  have t: "ContainerStopStep (take 1 ?specs) ?cl created = (None, ?t1) \<and>
           ContainerStop ?cl (calls ?t1) (Container.ID (containers ?t1 (?specs ! 1)))
             = Some (New ''cannot stop'')"
    by (simp add: created_eq fake_simps)
  let ?r1 = "snd (ContainerRemoveStep (take 1 ?specs) ?cl created)"
  have r: "ContainerRemoveStep (take 1 ?specs) ?cl created = (None, ?r1) \<and>
           ContainerRemove ?cl (calls ?r1) (Container.ID (containers ?r1 (?specs ! 1)))
             = Some (New ''cannot remove'')"
    by (simp add: created_eq fake_simps)
  have C: "fst (ContainerCreateStep ?specs ?cl bench) =
            Some (fmt_Errorf (''failed to create '' @ Container.Name (containers bench (?specs ! 1))
                              @ '' container: '') (New ''no such image'')) \<and>
          calls (snd (ContainerCreateStep ?specs ?cl bench)) =
            calls bench @ map (create_call bench) (take (Suc 1) ?specs)"
    using provisioning_steps_fail_fast[OF i, of ?cl bench ?c1 "New ''no such image''"] c by blast
  have S: "fst (ContainerStartStep ?specs ?cl created) =
            Some (fmt_Errorf (''failed to start '' @ Container.Name (containers created (?specs ! 1))
                              @ '' container: '') (New ''cannot start'')) \<and>
          calls (snd (ContainerStartStep ?specs ?cl created)) =
            calls created @ map (start_call created) (take (Suc 1) ?specs)"
    using provisioning_steps_fail_fast[OF i, of ?cl created ?s1 "New ''cannot start''"] s by blast
  have T: "fst (ContainerStopStep ?specs ?cl created) =
            Some (fmt_Errorf (''failed to stop '' @ Container.Name (containers created (?specs ! 1))
                              @ '' container: '') (New ''cannot stop'')) \<and>
          calls (snd (ContainerStopStep ?specs ?cl created)) =
            calls created @ map (stop_call created) (take (Suc 1) ?specs)"
    using provisioning_steps_fail_fast[OF i, of ?cl created ?t1 "New ''cannot stop''"] t by blast
  have R: "fst (ContainerRemoveStep ?specs ?cl created) =
            Some (fmt_Errorf (''failed to remove '' @ Container.Name (containers created (?specs ! 1))
                              @ '' container: '') (New ''cannot remove'')) \<and>
          calls (snd (ContainerRemoveStep ?specs ?cl created)) =
            calls created @ map (remove_call created) (take (Suc 1) ?specs)"
    using provisioning_steps_fail_fast[OF i, of ?cl created ?r1 "New ''cannot remove''"] r by blast
  have n: "Container.Name (containers bench (?specs ! 1)) = ''server''"
    "Container.Name (containers created (?specs ! 1)) = ''server''"
    "calls bench = []"
    "map (create_call bench) (take (Suc 1) ?specs)
       = [ContainerCreateCall () () ''client'', ContainerCreateCall () () ''server'']"
    "map (start_call created) (take (Suc 1) ?specs)
       = [ContainerStartCall ''id-client'', ContainerStartCall ''id-server'']"
    "map (stop_call created) (take (Suc 1) ?specs)
       = [ContainerStopCall ''id-client'', ContainerStopCall ''id-server'']"
    "map (remove_call created) (take (Suc 1) ?specs)
       = [ContainerRemoveCall ''id-client'', ContainerRemoveCall ''id-server'']"
    by (simp_all add: created_eq fake_simps)
  from C S T R show ?thesis unfolding n by (simp add: fmt_Errorf_def)
qed

lemma distinct_later_not_in_take:
  "\<lbrakk>distinct xs; i \<le> j; j < length xs\<rbrakk> \<Longrightarrow> xs ! j \<notin> set (take i xs)"
  by (auto simp: in_set_conv_nth nth_eq_iff_index_eq)

text \<open>
  Claim C10. When the create call for container \<open>i\<close> fails, the records are left as the
  first \<open>i\<close> iterations made them (nothing is rolled back): each container \<open>j < i\<close> holds
  the ID the backend returned for it, and each container from \<open>i\<close> on has the record it had
  before the step, so an empty ID stays empty. The containers are distinct records.
\<close>

theorem create_step_is_not_atomic:
  assumes "distinct specs" and "i < length specs"
    and "ContainerCreateStep (take i specs) cl w = (None, wi)"
    and "create_response cl (calls wi) wi (specs ! i) = Inl e"
  shows "fst (ContainerCreateStep specs cl w) \<noteq> None \<and>
         containers (snd (ContainerCreateStep specs cl w)) = containers wi \<and>
         (\<forall>j<i. create_response cl (calls w @ map (create_call w) (take j specs)) w (specs ! j)
                  = Inr (Container.ID (containers (snd (ContainerCreateStep specs cl w)) (specs ! j)))) \<and>
         (\<forall>j. i \<le> j \<and> j < length specs \<longrightarrow>
              containers (snd (ContainerCreateStep specs cl w)) (specs ! j) = containers w (specs ! j))"
proof -
  have r: "ContainerCreateStep specs cl w =
           (Some (fmt_Errorf (''failed to create '' @ Container.Name (containers w (specs ! i))
                              @ '' container: '') e),
            wi\<lparr>calls := calls w @ map (create_call w) (take (Suc i) specs)\<rparr>)"
    using assms(2,3,4) by (rule ContainerCreateStep_fails_at)
  have d: "distinct (take i specs)" using assms(1) by simp
  have ids: "create_response cl (calls w @ map (create_call w) (take j specs)) w (specs ! j)
                  = Inr (Container.ID (containers wi (specs ! j)))" if "j < i" for j
  proof -
    from that assms(2) have "j < length (take i specs)" by simp
    from ContainerCreateStep_ids[OF d assms(3) this] that show ?thesis
      by (simp add: min_def)
  qed
  have keep: "containers wi (specs ! j) = containers w (specs ! j)"
    if "i \<le> j \<and> j < length specs" for j
  proof -
    from that assms(1) have "specs ! j \<notin> set (take i specs)"
      by (intro distinct_later_not_in_take) simp_all
    from ContainerCreateStep_others[OF this, of cl w] assms(3) show ?thesis by simp
  qed
  show ?thesis using ids keep by (simp add: r)
qed

text \<open>The create call for \<open>server\<close> fails: \<open>client\<close> keeps its new ID, the other two stay empty.\<close>

theorem create_step_is_not_atomic_witness:
  "distinct [0::nat, 1, 2] \<and>
   fst (ContainerCreateStep (take 1 [0, 1, 2]) (fake ''server'' [] []) bench) = None \<and>
   fst (ContainerCreateStep [0, 1, 2] (fake ''server'' [] []) bench) \<noteq> None \<and>
   Container.ID (containers (snd (ContainerCreateStep [0, 1, 2] (fake ''server'' [] []) bench)) 0)
     = ''id-client'' \<and>
   Container.ID (containers (snd (ContainerCreateStep [0, 1, 2] (fake ''server'' [] []) bench)) 1) = [] \<and>
   Container.ID (containers (snd (ContainerCreateStep [0, 1, 2] (fake ''server'' [] []) bench)) 2) = []"
proof -
  let ?cl = "fake ''server'' [] []"
  let ?specs = "[0, 1, 2] :: nat list"
  let ?wi = "snd (ContainerCreateStep (take 1 ?specs) ?cl bench)"
  have a: "distinct ?specs" by simp
  have b: "1 < length ?specs" by simp
  have c1: "ContainerCreateStep (take 1 ?specs) ?cl bench = (None, ?wi)"
    by (simp add: fake_simps)
  have d: "create_response ?cl (calls ?wi) ?wi (?specs ! 1) = Inl (New ''no such image'')"
    by (simp add: fake_simps)
  from create_step_is_not_atomic[OF a b c1 d] show ?thesis
    by (simp add: fake_simps)
qed


section \<open>Properties of the streaming steps and of the sinks\<close>

lemma ContainerLogStep_containers:
  "containers (snd (ContainerLogStep errLogSink specs cl w)) = containers w"
  by (induction specs arbitrary: w) (auto simp: Let_def called_def split: sum.splits)

lemma ContainerStreamStatStep_containers:
  "containers (snd (ContainerStreamStatStep errLogSink specs cl w)) = containers w"
  by (induction specs arbitrary: w) (auto simp: Let_def called_def split: sum.splits)

lemma has_log_sink_cong: "containers w1 = containers w \<Longrightarrow> has_log_sink w1 = has_log_sink w"
  by (rule ext) (simp add: has_log_sink_def)

lemma has_stat_sink_cong: "containers w1 = containers w \<Longrightarrow> has_stat_sink w1 = has_stat_sink w"
  by (rule ext) (simp add: has_stat_sink_def)

lemma ContainerLogStep_filter:
  "ContainerLogStep errLogSink specs cl w =
   ContainerLogStep errLogSink (filter (has_log_sink w) specs) cl w"
proof (induction specs arbitrary: w)
  case Nil
  show ?case by simp
next
  case (Cons s specs)
  show ?case
  proof (cases "has_log_sink w s")
    case False
    then show ?thesis using Cons.IH[of w] by (simp add: has_log_sink_def)
  next
    case True
    then obtain k where k: "LogSink (containers w s) = Some k"
      by (auto simp: has_log_sink_def)
    show ?thesis
    proof (cases "ContainerLogs cl (calls w) (Container.ID (containers w s))")
      case (Inl e)
      with True show ?thesis by (simp add: k Let_def)
    next
      case (Inr inp)
      let ?w1 = "(called (ContainerLogsCall (Container.ID (containers w s))) w)
                   \<lparr>forked := forked w @ [LogWorker errLogSink s inp]\<rparr>"
      have "has_log_sink ?w1 = has_log_sink w"
        by (rule has_log_sink_cong) (simp add: called_def)
      with Cons.IH[of ?w1] True Inr show ?thesis
        by (simp add: k Let_def called_def)
    qed
  qed
qed

lemma ContainerStreamStatStep_filter:
  "ContainerStreamStatStep errLogSink specs cl w =
   ContainerStreamStatStep errLogSink (filter (has_stat_sink w) specs) cl w"
proof (induction specs arbitrary: w)
  case Nil
  show ?case by simp
next
  case (Cons s specs)
  show ?case
  proof (cases "has_stat_sink w s")
    case False
    then show ?thesis using Cons.IH[of w] by (simp add: has_stat_sink_def)
  next
    case True
    then obtain k where k: "StatSink (containers w s) = Some k"
      by (auto simp: has_stat_sink_def)
    show ?thesis
    proof (cases "ContainerStats cl (calls w) (Container.ID (containers w s))")
      case (Inl e)
      with True show ?thesis by (simp add: k Let_def)
    next
      case (Inr inp)
      let ?w1 = "(called (ContainerStatsCall (Container.ID (containers w s))) w)
                   \<lparr>forked := forked w @ [StatWorker errLogSink s inp]\<rparr>"
      have "has_stat_sink ?w1 = has_stat_sink w"
        by (rule has_stat_sink_cong) (simp add: called_def)
      with Cons.IH[of ?w1] True Inr show ?thesis
        by (simp add: k Let_def called_def)
    qed
  qed
qed

text \<open>The goroutines forked and the calls made by a step that returns \<open>nil\<close>.\<close>

lemma ContainerLogStep_pass:
  "ContainerLogStep errLogSink specs cl w = (None, w') \<Longrightarrow>
   (\<exists>new. forked w' = forked w @ new \<and> map worker_of new = filter (has_log_sink w) specs) \<and>
   calls w' = calls w @ map (\<lambda>p. ContainerLogsCall (Container.ID (containers w p)))
                            (filter (has_log_sink w) specs)"
proof (induction specs arbitrary: w)
  case Nil
  then show ?case by simp
next
  case (Cons s specs)
  show ?case
  proof (cases "has_log_sink w s")
    case False
    with Cons.prems have "ContainerLogStep errLogSink specs cl w = (None, w')"
      by (simp add: has_log_sink_def)
    from Cons.IH[OF this] False show ?thesis by simp
  next
    case True
    then obtain k where k: "LogSink (containers w s) = Some k"
      by (auto simp: has_log_sink_def)
    with Cons.prems obtain inp where
      inp: "ContainerLogs cl (calls w) (Container.ID (containers w s)) = Inr inp"
      by (cases "ContainerLogs cl (calls w) (Container.ID (containers w s))")
         (simp_all add: Let_def)
    let ?w1 = "(called (ContainerLogsCall (Container.ID (containers w s))) w)
                   \<lparr>forked := forked w @ [LogWorker errLogSink s inp]\<rparr>"
    from Cons.prems inp have rest: "ContainerLogStep errLogSink specs cl ?w1 = (None, w')"
      by (simp add: k Let_def called_def)
    have h: "has_log_sink ?w1 = has_log_sink w"
      by (rule has_log_sink_cong) (simp add: called_def)
    have c: "containers ?w1 = containers w" by (simp add: called_def)
    from Cons.IH[OF rest] obtain new where
      f: "forked w' = forked ?w1 @ new" and m: "map worker_of new = filter (has_log_sink w) specs"
      and k: "calls w' = calls ?w1 @ map (\<lambda>p. ContainerLogsCall (Container.ID (containers w p)))
                            (filter (has_log_sink w) specs)"
      unfolding h c by blast
    have "forked w' = forked w @ (LogWorker errLogSink s inp # new) \<and>
          map worker_of (LogWorker errLogSink s inp # new) = filter (has_log_sink w) (s # specs)"
      using f m True by simp
    then have "\<exists>new. forked w' = forked w @ new \<and>
                 map worker_of new = filter (has_log_sink w) (s # specs)" by blast
    moreover have "calls w' = calls w @ map (\<lambda>p. ContainerLogsCall (Container.ID (containers w p)))
                            (filter (has_log_sink w) (s # specs))"
      using k True by (simp add: called_def)
    ultimately show ?thesis by blast
  qed
qed

lemma ContainerStreamStatStep_pass:
  "ContainerStreamStatStep errLogSink specs cl w = (None, w') \<Longrightarrow>
   (\<exists>new. forked w' = forked w @ new \<and> map worker_of new = filter (has_stat_sink w) specs) \<and>
   calls w' = calls w @ map (\<lambda>p. ContainerStatsCall (Container.ID (containers w p)))
                            (filter (has_stat_sink w) specs)"
proof (induction specs arbitrary: w)
  case Nil
  then show ?case by simp
next
  case (Cons s specs)
  show ?case
  proof (cases "has_stat_sink w s")
    case False
    with Cons.prems have "ContainerStreamStatStep errLogSink specs cl w = (None, w')"
      by (simp add: has_stat_sink_def)
    from Cons.IH[OF this] False show ?thesis by simp
  next
    case True
    then obtain k where k: "StatSink (containers w s) = Some k"
      by (auto simp: has_stat_sink_def)
    with Cons.prems obtain inp where
      inp: "ContainerStats cl (calls w) (Container.ID (containers w s)) = Inr inp"
      by (cases "ContainerStats cl (calls w) (Container.ID (containers w s))")
         (simp_all add: Let_def)
    let ?w1 = "(called (ContainerStatsCall (Container.ID (containers w s))) w)
                   \<lparr>forked := forked w @ [StatWorker errLogSink s inp]\<rparr>"
    from Cons.prems inp have rest: "ContainerStreamStatStep errLogSink specs cl ?w1 = (None, w')"
      by (simp add: k Let_def called_def)
    have h: "has_stat_sink ?w1 = has_stat_sink w"
      by (rule has_stat_sink_cong) (simp add: called_def)
    have c: "containers ?w1 = containers w" by (simp add: called_def)
    from Cons.IH[OF rest] obtain new where
      f: "forked w' = forked ?w1 @ new" and m: "map worker_of new = filter (has_stat_sink w) specs"
      and k: "calls w' = calls ?w1 @ map (\<lambda>p. ContainerStatsCall (Container.ID (containers w p)))
                            (filter (has_stat_sink w) specs)"
      unfolding h c by blast
    have "forked w' = forked w @ (StatWorker errLogSink s inp # new) \<and>
          map worker_of (StatWorker errLogSink s inp # new) = filter (has_stat_sink w) (s # specs)"
      using f m True by simp
    then have "\<exists>new. forked w' = forked w @ new \<and>
                 map worker_of new = filter (has_stat_sink w) (s # specs)" by blast
    moreover have "calls w' = calls w @ map (\<lambda>p. ContainerStatsCall (Container.ID (containers w p)))
                            (filter (has_stat_sink w) (s # specs))"
      using k True by (simp add: called_def)
    ultimately show ?thesis by blast
  qed
qed

text \<open>
  Claim C8. A container whose sink is \<open>nil\<close> is skipped: each streaming step does on
  \<open>specs\<close> what it does on the containers of \<open>specs\<close> that have the sink, so for a
  container without the sink no stream is opened and no goroutine is forked, and on such
  a container alone the step returns \<open>nil\<close> and leaves the world as it was. A step that
  returns \<open>nil\<close> has forked one goroutine for each container that has the sink, in
  order, and opened one stream for each.
\<close>

theorem nil_sinks_are_skipped:
  "ContainerLogStep e specs cl w = ContainerLogStep e (filter (has_log_sink w) specs) cl w \<and>
   ContainerStreamStatStep e specs cl w =
     ContainerStreamStatStep e (filter (has_stat_sink w) specs) cl w \<and>
   (LogSink (containers w p) = None \<longrightarrow> ContainerLogStep e [p] cl w = (None, w)) \<and>
   (StatSink (containers w p) = None \<longrightarrow> ContainerStreamStatStep e [p] cl w = (None, w)) \<and>
   (\<forall>w'. ContainerLogStep e specs cl w = (None, w') \<longrightarrow>
      (\<exists>new. forked w' = forked w @ new \<and> map worker_of new = filter (has_log_sink w) specs) \<and>
      calls w' = calls w @ map (\<lambda>p. ContainerLogsCall (Container.ID (containers w p)))
                               (filter (has_log_sink w) specs)) \<and>
   (\<forall>w'. ContainerStreamStatStep e specs cl w = (None, w') \<longrightarrow>
      (\<exists>new. forked w' = forked w @ new \<and> map worker_of new = filter (has_stat_sink w) specs) \<and>
      calls w' = calls w @ map (\<lambda>p. ContainerStatsCall (Container.ID (containers w p)))
                               (filter (has_stat_sink w) specs))"
proof (intro conjI allI impI)
  show "ContainerLogStep e specs cl w = ContainerLogStep e (filter (has_log_sink w) specs) cl w"
    by (rule ContainerLogStep_filter)
  show "ContainerStreamStatStep e specs cl w =
          ContainerStreamStatStep e (filter (has_stat_sink w) specs) cl w"
    by (rule ContainerStreamStatStep_filter)
  show "ContainerLogStep e [p] cl w = (None, w)" if "LogSink (containers w p) = None"
    using that by simp
  show "ContainerStreamStatStep e [p] cl w = (None, w)" if "StatSink (containers w p) = None"
    using that by simp
  show "\<exists>new. forked w' = forked w @ new \<and> map worker_of new = filter (has_log_sink w) specs"
    if "ContainerLogStep e specs cl w = (None, w')" for w'
    using ContainerLogStep_pass[OF that] by blast
  show "calls w' = calls w @ map (\<lambda>p. ContainerLogsCall (Container.ID (containers w p)))
                               (filter (has_log_sink w) specs)"
    if "ContainerLogStep e specs cl w = (None, w')" for w'
    using ContainerLogStep_pass[OF that] by blast
  show "\<exists>new. forked w' = forked w @ new \<and> map worker_of new = filter (has_stat_sink w) specs"
    if "ContainerStreamStatStep e specs cl w = (None, w')" for w'
    using ContainerStreamStatStep_pass[OF that] by blast
  show "calls w' = calls w @ map (\<lambda>p. ContainerStatsCall (Container.ID (containers w p)))
                               (filter (has_stat_sink w) specs)"
    if "ContainerStreamStatStep e specs cl w = (None, w')" for w'
    using ContainerStreamStatStep_pass[OF that] by blast
qed

text \<open>The probe has no sink; the client alone has a log sink.\<close>

theorem nil_sinks_are_skipped_witness:
  "LogSink (containers bench 2) = None \<and> StatSink (containers bench 2) = None \<and>
   ContainerLogStep 2 [2] (fake ''none'' [] []) bench = (None, bench) \<and>
   ContainerStreamStatStep 2 [2] (fake ''none'' [] []) bench = (None, bench) \<and>
   filter (has_log_sink bench) [0, 1, 2] = [0] \<and>
   forked (snd (ContainerLogStep 2 [0, 1, 2] (fake ''none'' [] []) bench)) = [LogWorker 2 0 0] \<and>
   forked (snd (ContainerStreamStatStep 2 [0, 1, 2] (fake ''none'' [] []) bench))
     = [StatWorker 2 0 0, StatWorker 2 1 1]"
  using nil_sinks_are_skipped[of 2 "[0, 1, 2]" "fake ''none'' [] []" bench 2]
  by (simp add: fake_simps has_log_sink_def has_stat_sink_def)

lemma EnsureContainerSinkCloseStep_closes:
  "EnsureContainerSinkCloseStep specs cl w =
     (None, w\<lparr>closes := closes w @ concat (map (sinks_of w) specs)\<rparr>)"
proof (induction specs arbitrary: w)
  case Nil
  show ?case by simp
next
  case (Cons s specs)
  let ?w2 = "w\<lparr>closes := closes w @ sinks_of w s\<rparr>"
  have step: "EnsureContainerSinkCloseStep (s # specs) cl w = EnsureContainerSinkCloseStep specs cl ?w2"
    by (cases "LogSink (containers w s)"; cases "StatSink (containers w s)")
       (simp_all add: Let_def sinks_of_def)
  have "sinks_of ?w2 = sinks_of w" by (rule ext) (simp add: sinks_of_def)
  then show ?case unfolding step Cons.IH by simp
qed

lemma run_LogWorker:
  "LogSink (containers w p) = Some k \<Longrightarrow>
   \<exists>w'. run_worker io (LogWorker e p inp) w = Some w' \<and>
        closes w' = closes w @ [Stream inp, Sink k] \<and> containers w' = containers w"
  by (simp add: Let_def split: option.splits)

lemma run_StatWorker:
  "StatSink (containers w p) = Some k \<Longrightarrow>
   \<exists>w'. run_worker io (StatWorker e p r) w = Some w' \<and>
        closes w' = closes w @ [Stream r, Sink k] \<and> containers w' = containers w"
  by (simp add: Let_def split: option.splits)

lemma Sink_in_sinks_of:
  "LogSink (containers w p) = Some k \<or> StatSink (containers w p) = Some k \<Longrightarrow>
   p \<in> set specs \<Longrightarrow> Sink k \<in> set (concat (map (sinks_of w) specs))"
proof -
  assume a: "LogSink (containers w p) = Some k \<or> StatSink (containers w p) = Some k"
    and b: "p \<in> set specs"
  from a have "Sink k \<in> set (sinks_of w p)"
    by (auto simp: sinks_of_def split: option.splits)
  with b show ?thesis by auto
qed

lemma count_list_pos: "x \<in> set xs \<Longrightarrow> 1 \<le> count_list xs x"
  by (induction xs) auto

text \<open>
  Claim C9, as stated, fails. In the pipeline of \<open>cmd/bench\<close> run on the fake backend,
  with every goroutine finished where the pipeline waits, the log sink of the client
  (sink 10) is closed twice: once by its goroutine and once by
  \<open>EnsureContainerSinkCloseStep\<close>; so are the two stat sinks.
\<close>

theorem sink_closed_twice_counterexample:
  "fst (Run (bench_pipeline quiet (fake ''none'' [] []) [0, 1, 2]) bench) = None \<and>
   closes (snd (Run (bench_pipeline quiet (fake ''none'' [] []) [0, 1, 2]) bench)) =
     [Stream 3, Sink 11, Stream 4, Sink 12, Stream 8, Sink 10, Sink 10, Sink 11, Sink 12] \<and>
   count_list (closes (snd (Run (bench_pipeline quiet (fake ''none'' [] []) [0, 1, 2]) bench)))
     (Sink 10) = 2"
  by (simp add: bench_pipeline_def WithPosRunStep_def WithRunStep_def Run_def workers_finish_def
      quiet_def errors_Join_def fake_simps)

text \<open>
  Claim C9, amended. A goroutine that finishes closes its stream once and the sink of its
  container once, and \<open>EnsureContainerSinkCloseStep\<close> then calls \<open>Close\<close> once more on
  every sink that is not \<open>nil\<close>, whether or not it was closed before: after both, the
  stream has been closed once more than before and the sink at least twice more.
\<close>

theorem sink_closed_by_worker_and_by_close_step:
  assumes "p \<in> set specs"
  shows "(LogSink (containers w p) = Some k \<longrightarrow>
          (\<exists>w1 w2. run_worker io (LogWorker e p inp) w = Some w1 \<and>
             EnsureContainerSinkCloseStep specs cl w1 = (None, w2) \<and>
             closes w2 = closes w @ [Stream inp, Sink k] @ concat (map (sinks_of w) specs) \<and>
             Sink k \<in> set (concat (map (sinks_of w) specs)) \<and>
             count_list (closes w) (Sink k) + 2 \<le> count_list (closes w2) (Sink k) \<and>
             count_list (closes w2) (Stream inp) = count_list (closes w) (Stream inp) + 1)) \<and>
         (StatSink (containers w p) = Some k \<longrightarrow>
          (\<exists>w1 w2. run_worker io (StatWorker e p inp) w = Some w1 \<and>
             EnsureContainerSinkCloseStep specs cl w1 = (None, w2) \<and>
             closes w2 = closes w @ [Stream inp, Sink k] @ concat (map (sinks_of w) specs) \<and>
             Sink k \<in> set (concat (map (sinks_of w) specs)) \<and>
             count_list (closes w) (Sink k) + 2 \<le> count_list (closes w2) (Sink k) \<and>
             count_list (closes w2) (Stream inp) = count_list (closes w) (Stream inp) + 1))"
proof (intro conjI impI)
  assume k: "LogSink (containers w p) = Some k"
  from run_LogWorker[OF k, of io e inp] obtain w1 where
    r: "run_worker io (LogWorker e p inp) w = Some w1"
    and c: "closes w1 = closes w @ [Stream inp, Sink k]" and s: "containers w1 = containers w"
    by blast
  have so: "sinks_of w1 = sinks_of w" using s by (intro ext) (simp add: sinks_of_def)
  let ?w2 = "w1\<lparr>closes := closes w1 @ concat (map (sinks_of w1) specs)\<rparr>"
  have e: "EnsureContainerSinkCloseStep specs cl w1 = (None, ?w2)"
    by (rule EnsureContainerSinkCloseStep_closes)
  have m: "Sink k \<in> set (concat (map (sinks_of w) specs))"
    using k assms by (intro Sink_in_sinks_of) simp_all
  have n: "Stream inp \<notin> set (concat (map (sinks_of w) specs))"
    by (auto simp: sinks_of_def split: option.splits)
  have cl: "closes ?w2 = closes w @ [Stream inp, Sink k] @ concat (map (sinks_of w) specs)"
    by (simp add: c so)
  have "count_list (closes w) (Sink k) + 2 \<le> count_list (closes ?w2) (Sink k)"
    unfolding cl using count_list_pos[OF m] by simp
  moreover have "count_list (closes ?w2) (Stream inp) = count_list (closes w) (Stream inp) + 1"
    unfolding cl using n by (simp add: count_list_0_iff)
  ultimately show "\<exists>w1 w2. run_worker io (LogWorker e p inp) w = Some w1 \<and>
             EnsureContainerSinkCloseStep specs cl w1 = (None, w2) \<and>
             closes w2 = closes w @ [Stream inp, Sink k] @ concat (map (sinks_of w) specs) \<and>
             Sink k \<in> set (concat (map (sinks_of w) specs)) \<and>
             count_list (closes w) (Sink k) + 2 \<le> count_list (closes w2) (Sink k) \<and>
             count_list (closes w2) (Stream inp) = count_list (closes w) (Stream inp) + 1"
    using r e m cl by blast
next
  assume k: "StatSink (containers w p) = Some k"
  from run_StatWorker[OF k, of io e inp] obtain w1 where
    r: "run_worker io (StatWorker e p inp) w = Some w1"
    and c: "closes w1 = closes w @ [Stream inp, Sink k]" and s: "containers w1 = containers w"
    by blast
  have so: "sinks_of w1 = sinks_of w" using s by (intro ext) (simp add: sinks_of_def)
  let ?w2 = "w1\<lparr>closes := closes w1 @ concat (map (sinks_of w1) specs)\<rparr>"
  have e: "EnsureContainerSinkCloseStep specs cl w1 = (None, ?w2)"
    by (rule EnsureContainerSinkCloseStep_closes)
  have m: "Sink k \<in> set (concat (map (sinks_of w) specs))"
    using k assms by (intro Sink_in_sinks_of) simp_all
  have n: "Stream inp \<notin> set (concat (map (sinks_of w) specs))"
    by (auto simp: sinks_of_def split: option.splits)
  have cl: "closes ?w2 = closes w @ [Stream inp, Sink k] @ concat (map (sinks_of w) specs)"
    by (simp add: c so)
  have "count_list (closes w) (Sink k) + 2 \<le> count_list (closes ?w2) (Sink k)"
    unfolding cl using count_list_pos[OF m] by simp
  moreover have "count_list (closes ?w2) (Stream inp) = count_list (closes w) (Stream inp) + 1"
    unfolding cl using n by (simp add: count_list_0_iff)
  ultimately show "\<exists>w1 w2. run_worker io (StatWorker e p inp) w = Some w1 \<and>
             EnsureContainerSinkCloseStep specs cl w1 = (None, w2) \<and>
             closes w2 = closes w @ [Stream inp, Sink k] @ concat (map (sinks_of w) specs) \<and>
             Sink k \<in> set (concat (map (sinks_of w) specs)) \<and>
             count_list (closes w) (Sink k) + 2 \<le> count_list (closes w2) (Sink k) \<and>
             count_list (closes w2) (Stream inp) = count_list (closes w) (Stream inp) + 1"
    using r e m cl by blast
qed

text \<open>The client, whose log sink is 10 and whose stat sink is 11.\<close>

theorem sink_closed_by_worker_and_by_close_step_witness:
  "(0::nat) \<in> set [0, 1, 2] \<and> LogSink (containers bench 0) = Some 10 \<and>
   StatSink (containers bench 0) = Some 11 \<and>
   (\<exists>w1 w2. run_worker quiet (LogWorker 2 0 8) bench = Some w1 \<and>
      EnsureContainerSinkCloseStep [0, 1, 2] (fake ''none'' [] []) w1 = (None, w2) \<and>
      closes w2 = [Stream 8, Sink 10, Sink 10, Sink 11, Sink 12]) \<and>
   (\<exists>w1 w2. run_worker quiet (StatWorker 2 0 3) bench = Some w1 \<and>
      EnsureContainerSinkCloseStep [0, 1, 2] (fake ''none'' [] []) w1 = (None, w2) \<and>
      closes w2 = [Stream 3, Sink 11, Sink 10, Sink 11, Sink 12])"
proof -
  have a: "(0::nat) \<in> set [0, 1, 2]" by simp
  have l: "LogSink (containers bench 0) = Some 10" by (simp add: bench_def)
  have s: "StatSink (containers bench 0) = Some 11" by (simp add: bench_def)
  have so: "concat (map (sinks_of bench) [0, 1, 2]) = [Sink 10, Sink 11, Sink 12]"
    by (simp add: sinks_of_def bench_def blank_def)
  have c: "closes bench = []" by (simp add: bench_def)
  from sink_closed_by_worker_and_by_close_step[OF a, of bench 10 quiet 2 8 "fake ''none'' [] []"] l
  have L: "\<exists>w1 w2. run_worker quiet (LogWorker 2 0 8) bench = Some w1 \<and>
      EnsureContainerSinkCloseStep [0, 1, 2] (fake ''none'' [] []) w1 = (None, w2) \<and>
      closes w2 = [Stream 8, Sink 10, Sink 10, Sink 11, Sink 12]"
    unfolding so c by auto
  from sink_closed_by_worker_and_by_close_step[OF a, of bench 11 quiet 2 3 "fake ''none'' [] []"] s
  have S: "\<exists>w1 w2. run_worker quiet (StatWorker 2 0 3) bench = Some w1 \<and>
      EnsureContainerSinkCloseStep [0, 1, 2] (fake ''none'' [] []) w1 = (None, w2) \<and>
      closes w2 = [Stream 3, Sink 11, Sink 10, Sink 11, Sink 12]"
    unfolding so c by auto
  from a l s L S show ?thesis by blast
qed


section \<open>Properties of the ensure steps\<close>

lemma fold_insert_image:
  "fold (\<lambda>n names. insert (f n) names) xs A = f ` set xs \<union> A"
  by (induction xs arbitrary: A) auto

lemma networkNameSet_eq: "networkNameSet nets = network_Summary.Name ` set nets"
  by (simp add: networkNameSet_def fold_insert_image)

lemma imageTagSet_eq: "imageTagSet imgs = (\<Union>i \<in> set imgs. set (RepoTags i))"
proof -
  have "fold (\<lambda>i tags. fold (\<lambda>t tags. insert t tags) (RepoTags i) tags) imgs A
          = (\<Union>i \<in> set imgs. set (RepoTags i)) \<union> A" for A
    by (induction imgs arbitrary: A) (auto simp: fold_insert_image[where f = "\<lambda>t. t", simplified])
  then show ?thesis by (simp add: imageTagSet_def)
qed

lemma EnsureNetworkStep_loop_skips:
  "\<forall>p \<in> set specs. Network.Name (networks w p) \<in> names \<Longrightarrow>
   EnsureNetworkStep_loop names specs cl w = (None, w)"
  by (induction specs) simp_all

lemma EnsureImageStep_loop_skips:
  "\<forall>p \<in> set specs. Tag (images w p) \<in> tags \<and> \<not> Rebuild (images w p) \<Longrightarrow>
   EnsureImageStep_loop tags specs cl w = (None, w)"
  by (induction specs) simp_all

lemma EnsureNetworkStep_loop_keeps:
  "Network.Name (networks w p) \<in> names \<Longrightarrow>
   networks (snd (EnsureNetworkStep_loop names specs cl w)) p = networks w p"
proof (induction specs arbitrary: w)
  case Nil
  show ?case by simp
next
  case (Cons s specs)
  show ?case
  proof (cases "Network.Name (networks w s) \<in> names")
    case True
    with Cons show ?thesis by simp
  next
    case False
    with Cons.prems have ne: "s \<noteq> p" by auto
    show ?thesis
    proof (cases "NetworkCreate cl (calls w) (Network.Name (networks w s))")
      case (Inl e)
      with False show ?thesis by (simp add: Let_def called_def)
    next
      case (Inr rid)
      let ?w1 = "(called (NetworkCreateCall (Network.Name (networks w s))) w)
                   \<lparr>networks := (networks w)(s := (networks w s)\<lparr>Network.ID := rid\<rparr>)\<rparr>"
      have "Network.Name (networks ?w1 p) \<in> names" using ne Cons.prems by simp
      from Cons.IH[OF this] False Inr ne show ?thesis by (simp add: Let_def called_def)
    qed
  qed
qed

lemma EnsureNetworkStep_loop_calls:
  "\<exists>new. calls (snd (EnsureNetworkStep_loop names specs cl w)) = calls w @ new \<and>
         (\<forall>k \<in> set new. \<exists>n. k = NetworkCreateCall n \<and> n \<notin> names)"
proof (induction specs arbitrary: w)
  case Nil
  show ?case by simp
next
  case (Cons s specs)
  show ?case
  proof (cases "Network.Name (networks w s) \<in> names")
    case True
    with Cons.IH[of w] show ?thesis by simp
  next
    case False
    show ?thesis
    proof (cases "NetworkCreate cl (calls w) (Network.Name (networks w s))")
      case (Inl e)
      with False show ?thesis by (simp add: Let_def called_def)
    next
      case (Inr rid)
      let ?w1 = "(called (NetworkCreateCall (Network.Name (networks w s))) w)
                   \<lparr>networks := (networks w)(s := (networks w s)\<lparr>Network.ID := rid\<rparr>)\<rparr>"
      from Cons.IH[of ?w1] obtain new where
        n: "calls (snd (EnsureNetworkStep_loop names specs cl ?w1)) = calls ?w1 @ new"
        and a: "\<forall>k \<in> set new. \<exists>n. k = NetworkCreateCall n \<and> n \<notin> names" by blast
      have eq: "EnsureNetworkStep_loop names (s # specs) cl w = EnsureNetworkStep_loop names specs cl ?w1"
        using False Inr by (simp add: Let_def called_def)
      have "calls (snd (EnsureNetworkStep_loop names (s # specs) cl w))
              = calls w @ (NetworkCreateCall (Network.Name (networks w s)) # new)"
        unfolding eq n by (simp add: called_def)
      moreover have "\<forall>k \<in> set (NetworkCreateCall (Network.Name (networks w s)) # new).
                        \<exists>n. k = NetworkCreateCall n \<and> n \<notin> names"
        using a False by simp
      ultimately show ?thesis by blast
    qed
  qed
qed

lemma EnsureNetworkStep_first:
  assumes "EnsureNetworkStep [p] cl w = (None, w1)"
    and "NetworkList cl (calls w) = Inr nets"
    and "Network.Name (networks w p) \<notin> networkNameSet nets"
  shows "calls w1 = calls w @ [NetworkListCall, NetworkCreateCall (Network.Name (networks w p))] \<and>
         Network.Name (networks w1 p) = Network.Name (networks w p)"
proof (cases "NetworkCreate cl (calls w @ [NetworkListCall]) (Network.Name (networks w p))")
  case (Inl e)
  with assms show ?thesis by (simp add: EnsureNetworkStep_def Let_def called_def)
next
  case (Inr rid)
  with assms show ?thesis by (auto simp: EnsureNetworkStep_def Let_def called_def)
qed

lemma EnsureImageStep_first:
  assumes "EnsureImageStep [q] cl w = (None, w1)"
    and "ImageList cl (calls w) = Inr imgs"
    and "Tag (images w q) \<notin> imageTagSet imgs"
  shows "calls w1 = calls w @ [ImageListCall, ImageBuildCall (BuildCtx (images w q)) (Tag (images w q))] \<and>
         images w1 = images w"
  using assms
  by (auto simp: EnsureImageStep_def Let_def called_def split: prod.splits option.splits)

lemmas ensure_simps = EnsureNetworkStep_def EnsureImageStep_def networkNameSet_def imageTagSet_def
  DrainCloseErr_def ok_body_def errors_Join_def

text \<open>
  Claim C2, as stated, fails. The backend lists a network named \<open>bench\<close> with the ID
  \<open>net-7\<close>; the step makes no create call and returns \<open>nil\<close>, and the ID field of the
  spec is still empty: the ID of the existing network is not copied into the record.
\<close>

theorem existing_network_id_not_reused_counterexample:
  "NetworkList (fake ''none'' [\<lparr>network_Summary.Name = ''bench'', ID = ''net-7''\<rparr>] []) (calls bench)
     = Inr [\<lparr>network_Summary.Name = ''bench'', ID = ''net-7''\<rparr>] \<and>
   Network.Name (networks bench 0) = ''bench'' \<and>
   EnsureNetworkStep [0] (fake ''none'' [\<lparr>network_Summary.Name = ''bench'', ID = ''net-7''\<rparr>] [])
     bench = (None, called NetworkListCall bench) \<and>
   Network.ID (networks (snd (EnsureNetworkStep [0]
       (fake ''none'' [\<lparr>network_Summary.Name = ''bench'', ID = ''net-7''\<rparr>] []) bench)) 0) = [] \<and>
   Network.ID (networks (snd (EnsureNetworkStep [0]
       (fake ''none'' [\<lparr>network_Summary.Name = ''bench'', ID = ''net-7''\<rparr>] []) bench)) 0) \<noteq> ''net-7''"
  by (simp add: EnsureNetworkStep_def networkNameSet_def fake_simps)

text \<open>
  Claim C2, amended. For a spec whose name is in the list of the backend, the step makes
  no create call for that name and leaves the record of the spec, its ID field included,
  as it was.
\<close>

theorem existing_network_is_not_created:
  assumes "NetworkList cl (calls w) = Inr nets"
    and "p \<in> set specs"
    and "\<exists>n \<in> set nets. network_Summary.Name n = Network.Name (networks w p)"
  shows "networks (snd (EnsureNetworkStep specs cl w)) p = networks w p \<and>
         (\<exists>new. calls (snd (EnsureNetworkStep specs cl w)) = calls w @ NetworkListCall # new \<and>
                NetworkCreateCall (Network.Name (networks w p)) \<notin> set new)"
proof -
  let ?w1 = "called NetworkListCall w"
  let ?names = "networkNameSet nets"
  from assms(2) have ne: "\<not> length specs < 1" by (cases specs) auto
  have step: "EnsureNetworkStep specs cl w = EnsureNetworkStep_loop ?names specs cl ?w1"
    using assms(1) ne by (simp add: EnsureNetworkStep_def Let_def)
  from assms(3) obtain n where "n \<in> set nets"
    "network_Summary.Name n = Network.Name (networks w p)" by blast
  then have "Network.Name (networks w p) \<in> network_Summary.Name ` set nets"
    by (metis imageI)
  then have inn: "Network.Name (networks ?w1 p) \<in> ?names"
    by (simp add: networkNameSet_eq called_def)
  have keep: "networks (snd (EnsureNetworkStep specs cl w)) p = networks w p"
    unfolding step using EnsureNetworkStep_loop_keeps[OF inn, of specs cl] by (simp add: called_def)
  from EnsureNetworkStep_loop_calls[of ?names specs cl ?w1] obtain new where
    n: "calls (snd (EnsureNetworkStep_loop ?names specs cl ?w1)) = calls ?w1 @ new"
    and a: "\<forall>k \<in> set new. \<exists>n. k = NetworkCreateCall n \<and> n \<notin> ?names" by blast
  have "NetworkCreateCall (Network.Name (networks w p)) \<notin> set new"
    using a inn by (auto simp: called_def)
  moreover have "calls (snd (EnsureNetworkStep specs cl w)) = calls w @ NetworkListCall # new"
    unfolding step n by (simp add: called_def)
  ultimately show ?thesis using keep by blast
qed

text \<open>The network \<open>bench\<close> exists with the ID \<open>net-7\<close>.\<close>

theorem existing_network_is_not_created_witness:
  "NetworkList (fake ''none'' [\<lparr>network_Summary.Name = ''bench'', ID = ''net-7''\<rparr>] []) (calls bench)
     = Inr [\<lparr>network_Summary.Name = ''bench'', ID = ''net-7''\<rparr>] \<and>
   (0::nat) \<in> set [0] \<and>
   networks (snd (EnsureNetworkStep [0]
       (fake ''none'' [\<lparr>network_Summary.Name = ''bench'', ID = ''net-7''\<rparr>] []) bench)) 0
     = \<lparr>Network.Name = ''bench'', ID = []\<rparr> \<and>
   calls (snd (EnsureNetworkStep [0]
       (fake ''none'' [\<lparr>network_Summary.Name = ''bench'', ID = ''net-7''\<rparr>] []) bench))
     = [NetworkListCall]"
proof -
  let ?cl = "fake ''none'' [\<lparr>network_Summary.Name = ''bench'', ID = ''net-7''\<rparr>] []"
  have a: "NetworkList ?cl (calls bench) = Inr [\<lparr>network_Summary.Name = ''bench'', ID = ''net-7''\<rparr>]"
    by (simp add: fake_simps)
  have b: "(0::nat) \<in> set [0]" by simp
  have c: "\<exists>n \<in> set [\<lparr>network_Summary.Name = ''bench'', ID = ''net-7''\<rparr>].
             network_Summary.Name n = Network.Name (networks bench 0)"
    by (simp add: bench_def)
  from existing_network_is_not_created[OF a b c] a b show ?thesis
    by (simp add: EnsureNetworkStep_def networkNameSet_def fake_simps)
qed

text \<open>
  Claim C6. A step built with one network (one image with \<open>Rebuild\<close> false) is executed
  twice. The first execution creates the network (builds the image): its name is not in
  the first list and the execution returns \<open>nil\<close>. The second list holds the name. Then
  the calls of the two executions are a list, one create (build) and a list: exactly one
  create (build) call.
\<close>

theorem ensure_twice_creates_once:
  "(EnsureNetworkStep [p] cl w = (None, w1) \<and>
    NetworkList cl (calls w) = Inr nets \<and> Network.Name (networks w p) \<notin> networkNameSet nets \<and>
    NetworkList cl (calls w1) = Inr nets1 \<and> Network.Name (networks w p) \<in> networkNameSet nets1
    \<longrightarrow> (\<exists>w2. EnsureNetworkStep [p] cl w1 = (None, w2) \<and>
          calls w2 = calls w @ [NetworkListCall, NetworkCreateCall (Network.Name (networks w p)),
                               NetworkListCall])) \<and>
   (EnsureImageStep [q] cl w = (None, w1) \<and> \<not> Rebuild (images w q) \<and>
    ImageList cl (calls w) = Inr imgs \<and> Tag (images w q) \<notin> imageTagSet imgs \<and>
    ImageList cl (calls w1) = Inr imgs1 \<and> Tag (images w q) \<in> imageTagSet imgs1
    \<longrightarrow> (\<exists>w2. EnsureImageStep [q] cl w1 = (None, w2) \<and>
          calls w2 = calls w @ [ImageListCall,
                               ImageBuildCall (BuildCtx (images w q)) (Tag (images w q)),
                               ImageListCall]))"
proof (intro conjI impI)
  assume a: "EnsureNetworkStep [p] cl w = (None, w1) \<and>
    NetworkList cl (calls w) = Inr nets \<and> Network.Name (networks w p) \<notin> networkNameSet nets \<and>
    NetworkList cl (calls w1) = Inr nets1 \<and> Network.Name (networks w p) \<in> networkNameSet nets1"
  then have f: "calls w1 = calls w @ [NetworkListCall, NetworkCreateCall (Network.Name (networks w p))]"
    and nm: "Network.Name (networks w1 p) = Network.Name (networks w p)"
    using EnsureNetworkStep_first[of p cl w w1 nets] by simp_all
  have "EnsureNetworkStep [p] cl w1 = (None, called NetworkListCall w1)"
    using a nm by (simp add: EnsureNetworkStep_def Let_def called_def)
  moreover have "calls (called NetworkListCall w1) =
      calls w @ [NetworkListCall, NetworkCreateCall (Network.Name (networks w p)), NetworkListCall]"
    by (simp add: f called_def)
  ultimately show "\<exists>w2. EnsureNetworkStep [p] cl w1 = (None, w2) \<and>
          calls w2 = calls w @ [NetworkListCall, NetworkCreateCall (Network.Name (networks w p)),
                               NetworkListCall]" by blast
next
  assume a: "EnsureImageStep [q] cl w = (None, w1) \<and> \<not> Rebuild (images w q) \<and>
    ImageList cl (calls w) = Inr imgs \<and> Tag (images w q) \<notin> imageTagSet imgs \<and>
    ImageList cl (calls w1) = Inr imgs1 \<and> Tag (images w q) \<in> imageTagSet imgs1"
  then have f: "calls w1 = calls w @ [ImageListCall, ImageBuildCall (BuildCtx (images w q)) (Tag (images w q))]"
    and im: "images w1 = images w"
    using EnsureImageStep_first[of q cl w w1 imgs] by simp_all
  have "EnsureImageStep [q] cl w1 = (None, called ImageListCall w1)"
    using a im by (simp add: EnsureImageStep_def Let_def called_def)
  moreover have "calls (called ImageListCall w1) =
      calls w @ [ImageListCall, ImageBuildCall (BuildCtx (images w q)) (Tag (images w q)), ImageListCall]"
    by (simp add: f called_def)
  ultimately show "\<exists>w2. EnsureImageStep [q] cl w1 = (None, w2) \<and>
          calls w2 = calls w @ [ImageListCall,
                               ImageBuildCall (BuildCtx (images w q)) (Tag (images w q)),
                               ImageListCall]" by blast
qed

text \<open>The fake starts with no network and no image.\<close>

theorem ensure_twice_creates_once_witness:
  "calls (snd (EnsureNetworkStep [0] (fake ''none'' [] [])
           (snd (EnsureNetworkStep [0] (fake ''none'' [] []) bench))))
     = [NetworkListCall, NetworkCreateCall ''bench'', NetworkListCall] \<and>
   calls (snd (EnsureImageStep [0] (fake ''none'' [] [])
           (snd (EnsureImageStep [0] (fake ''none'' [] []) bench))))
     = [ImageListCall, ImageBuildCall 0 ''client:latest'', ImageListCall]"
proof -
  let ?cl = "fake ''none'' [] []"
  let ?n1 = "snd (EnsureNetworkStep [0] ?cl bench)"
  let ?i1 = "snd (EnsureImageStep [0] ?cl bench)"
  have n: "EnsureNetworkStep [0] ?cl bench = (None, ?n1) \<and>
    NetworkList ?cl (calls bench) = Inr [] \<and> Network.Name (networks bench 0) \<notin> networkNameSet [] \<and>
    NetworkList ?cl (calls ?n1) = Inr [\<lparr>network_Summary.Name = ''bench'', ID = ''net-bench''\<rparr>] \<and>
    Network.Name (networks bench 0)
      \<in> networkNameSet [\<lparr>network_Summary.Name = ''bench'', ID = ''net-bench''\<rparr>]"
    by (simp add: ensure_simps fake_simps)
  have i: "EnsureImageStep [0] ?cl bench = (None, ?i1) \<and> \<not> Rebuild (images bench 0) \<and>
    ImageList ?cl (calls bench) = Inr [] \<and> Tag (images bench 0) \<notin> imageTagSet [] \<and>
    ImageList ?cl (calls ?i1) = Inr [\<lparr>RepoTags = [''client:latest'']\<rparr>] \<and>
    Tag (images bench 0) \<in> imageTagSet [\<lparr>RepoTags = [''client:latest'']\<rparr>]"
    by (simp add: ensure_simps fake_simps)
  from ensure_twice_creates_once[of 0 ?cl bench ?n1 "[]"
      "[\<lparr>network_Summary.Name = ''bench'', ID = ''net-bench''\<rparr>]" 0 "[]"
      "[\<lparr>RepoTags = [''client:latest'']\<rparr>]"] n
  have N: "\<exists>w2. EnsureNetworkStep [0] ?cl ?n1 = (None, w2) \<and>
          calls w2 = calls bench @ [NetworkListCall, NetworkCreateCall (Network.Name (networks bench 0)),
                               NetworkListCall]" by blast
  from ensure_twice_creates_once[of 0 ?cl bench ?i1 "[]"
      "[\<lparr>network_Summary.Name = ''bench'', ID = ''net-bench''\<rparr>]" 0 "[]"
      "[\<lparr>RepoTags = [''client:latest'']\<rparr>]"] i
  have I: "\<exists>w2. EnsureImageStep [0] ?cl ?i1 = (None, w2) \<and>
          calls w2 = calls bench @ [ImageListCall,
                               ImageBuildCall (BuildCtx (images bench 0)) (Tag (images bench 0)),
                               ImageListCall]" by blast
  have b: "calls bench = []" "Network.Name (networks bench 0) = ''bench''"
    "BuildCtx (images bench 0) = 0" "Tag (images bench 0) = ''client:latest''"
    by (simp_all add: bench_def)
  from N I show ?thesis unfolding b by auto
qed

end
